theory Spec2Isabelle
  imports Complex_Main
begin

unbundle bit_operations_syntax

section \<open>Exact diagonalisation of the transverse-field Ising ring: the model\<close>

text \<open>
  The program treats a Python integer as an \<open>L\<close>-bit spin configuration. Python integers
  are unbounded, so states, lengths, shift counts and momentum labels are \<open>int\<close>; list
  positions (results of \<open>list.index\<close>, \<open>len\<close>) are \<open>nat\<close>. The couplings \<open>J\<close>, \<open>g\<close>
  are exact reals and matrix values exact complex numbers. Every place where the Python
  runtime raises is a branch returning \<open>Inl\<close>.
\<close>

subsection \<open>Errors and sequencing\<close>

datatype py_error = TypeError | ValueError | ZeroDivisionError | IndexError | OverflowError

definition bindE :: "py_error + 'a \<Rightarrow> ('a \<Rightarrow> py_error + 'b) \<Rightarrow> py_error + 'b" where
  "bindE m f = (case m of Inl e \<Rightarrow> Inl e | Inr x \<Rightarrow> f x)"

text \<open>A list comprehension whose element expression may raise.\<close>

fun mapE :: "('a \<Rightarrow> py_error + 'b) \<Rightarrow> 'a list \<Rightarrow> py_error + 'b list" where
  "mapE f [] = Inr []"
| "mapE f (x # xs) = bindE (f x) (\<lambda>y. bindE (mapE f xs) (\<lambda>ys. Inr (y # ys)))"

text \<open>A \<open>for\<close> loop over a list whose body may raise; the loop state is threaded through.\<close>

fun foldE :: "('a \<Rightarrow> 's \<Rightarrow> py_error + 's) \<Rightarrow> 'a list \<Rightarrow> 's \<Rightarrow> py_error + 's" where
  "foldE f [] s = Inr s"
| "foldE f (x # xs) s = bindE (f x s) (foldE f xs)"

text \<open>\<open>range(a, b)\<close> on integers.\<close>

definition py_range :: "int \<Rightarrow> int \<Rightarrow> int list" where
  "py_range a b = [a..b - 1]"

text \<open>\<open>xs.index(x)\<close>: the first position of \<open>x\<close>, ValueError when absent.\<close>

fun index_of :: "'a list \<Rightarrow> 'a \<Rightarrow> py_error + nat" where
  "index_of [] x = Inl ValueError"
| "index_of (y # ys) x =
     (if y = x then Inr 0
      else (case index_of ys x of Inl e \<Rightarrow> Inl e | Inr i \<Rightarrow> Inr (Suc i)))"

text \<open>\<open>min(xs)\<close>: ValueError on the empty list.\<close>

definition minE :: "int list \<Rightarrow> py_error + int" where
  "minE xs = (case xs of [] \<Rightarrow> Inl ValueError | x # ys \<Rightarrow> Inr (fold min ys x))"

subsection \<open>Binary encoding of the basis states\<close>

text \<open>\<open>bin(n)[2:]\<close> for a non-negative \<open>n\<close>.\<close>

fun bin_digits :: "nat \<Rightarrow> string" where
  "bin_digits n =
     (if n < 2 then [if n = 0 then CHR ''0'' else CHR ''1'']
      else bin_digits (n div 2) @ [if n mod 2 = 0 then CHR ''0'' else CHR ''1''])"

declare bin_digits.simps [simp del]

text \<open>\<open>np.binary_repr(i)\<close> without a width: a minus sign and the digits of \<open>-i\<close> when
  \<open>i\<close> is negative.\<close>

definition binary_repr :: "int \<Rightarrow> string" where
  "binary_repr i = (if i < 0 then CHR ''-'' # bin_digits (nat (- i)) else bin_digits (nat i))"

definition CountBit :: "int \<Rightarrow> nat" where
  "CountBit i = count_list (binary_repr i) (CHR ''1'')"

text \<open>\<open>1 << n\<close> raises ValueError for a negative shift count.\<close>

definition FilpBit :: "int \<Rightarrow> int \<Rightarrow> py_error + int" where
  "FilpBit i n = (if n < 0 then Inl ValueError else Inr (i XOR push_bit (nat n) 1))"

definition ReadBit :: "int \<Rightarrow> int \<Rightarrow> py_error + int" where
  "ReadBit i n =
     (if n < 0 then Inl ValueError else Inr (drop_bit (nat n) (i AND push_bit (nat n) 1)))"

text \<open>\<open>2 ** n\<close> is a float for negative \<open>n\<close>, and shifting a float is a TypeError;
  a negative shift count of an integer is a ValueError.\<close>

definition PickBit :: "int \<Rightarrow> int \<Rightarrow> int \<Rightarrow> py_error + int" where
  "PickBit i k n =
     (if n < 0 then Inl TypeError
      else if k < 0 then Inl ValueError
      else Inr (drop_bit (nat k) (i AND push_bit (nat k) (2 ^ nat n - 1))))"

definition RotLBit :: "int \<Rightarrow> int \<Rightarrow> int \<Rightarrow> py_error + int" where
  "RotLBit i L n =
     bindE (PickBit i 0 (L - n)) (\<lambda>p.
       if n < 0 then Inl ValueError
       else Inr (push_bit (nat n) p + drop_bit (nat (L - n)) i))"

definition RotRBit :: "int \<Rightarrow> int \<Rightarrow> int \<Rightarrow> py_error + int" where
  "RotRBit i L n =
     bindE (PickBit i 0 n) (\<lambda>p.
       if L - n < 0 then Inl ValueError
       else Inr (push_bit (nat (L - n)) p + drop_bit (nat n) i))"

subsection \<open>The Hamiltonian acting on a state\<close>

text \<open>The body of the loop over the bonds: one comparison of two bits.\<close>

definition bond_step :: "int \<Rightarrow> real \<Rightarrow> int \<times> int \<Rightarrow> real \<Rightarrow> py_error + real" where
  "bond_step n J j diag =
     bindE (ReadBit n (fst j)) (\<lambda>x.
     bindE (ReadBit n (snd j)) (\<lambda>y.
       Inr (if x = y then diag - J else diag + J)))"

definition ActingH :: "int \<Rightarrow> int \<Rightarrow> real \<Rightarrow> real \<Rightarrow> py_error + (int \<times> real) list" where
  "ActingH n L J g =
     (let ising = map (\<lambda>i. (i, (i + 1) mod L)) (py_range 0 L);
          output = map (\<lambda>i. (n XOR push_bit (nat i) 1, - J * g)) (py_range 0 L)
      in bindE (foldE (bond_step n J) ising 0) (\<lambda>diag. Inr (output @ [(n, diag)])))"

subsection \<open>The basis of a momentum sector\<close>

text \<open>\<open>2 ** L\<close> is a float for negative \<open>L\<close>, which \<open>range\<close> rejects.\<close>

definition BuildBasisN :: "int \<Rightarrow> py_error + int list" where
  "BuildBasisN L = (if L < 0 then Inl TypeError else Inr (py_range 0 (2 ^ nat L)))"

text \<open>The comprehension \<open>[RotLBit(n, L, i) for i in range(0, L + 1)]\<close>.\<close>

definition Tlist :: "int \<Rightarrow> int \<Rightarrow> py_error + int list" where
  "Tlist n L = mapE (\<lambda>i. RotLBit n L i) (py_range 0 (L + 1))"

text \<open>\<open>Tlist[1:].index(n) + 1\<close>.\<close>

definition period_in :: "int list \<Rightarrow> int \<Rightarrow> py_error + nat" where
  "period_in T n = bindE (index_of (drop 1 T) n) (\<lambda>r. Inr (r + 1))"

text \<open>The body of the loop over all states. The test \<open>(k * R) % L == 0\<close> is only
  evaluated when \<open>m == n\<close>, and raises for \<open>L = 0\<close>.\<close>

definition basis_step :: "int \<Rightarrow> int \<Rightarrow> int \<Rightarrow> int list \<Rightarrow> py_error + int list" where
  "basis_step L k n basisNk =
     bindE (Tlist n L) (\<lambda>T.
     bindE (minE T) (\<lambda>m.
     bindE (period_in T n) (\<lambda>R.
       if m = n then
         (if L = 0 then Inl ZeroDivisionError
          else Inr (if (k * int R) mod L = 0 then basisNk @ [n] else basisNk))
       else Inr basisNk)))"

definition BuildBasisNk :: "int \<Rightarrow> int \<Rightarrow> py_error + int list" where
  "BuildBasisNk L k = bindE (BuildBasisN L) (\<lambda>basisN. foldE (basis_step L k) basisN [])"

subsection \<open>The matrix of a momentum sector\<close>

text \<open>The mutable locals of \<open>BuildHNk\<close>: the three triplet lists and the dictionary
  \<open>pos\<close> from a pair of indices to its slot in the lists.\<close>

record 'c hnk_state =
  HNk_col :: "nat list"
  HNk_row :: "nat list"
  HNk_val :: "'c list"
  pos :: "nat \<times> nat \<rightharpoonup> nat"

definition hnk_init :: "'c hnk_state" where
  "hnk_init = \<lparr>HNk_col = [], HNk_row = [], HNk_val = [], pos = Map.empty\<rparr>"

text \<open>\<open>h * np.exp(1j * k * d * 2 * math.pi / L) * np.sqrt(Rn) / np.sqrt(Rm)\<close> in
  exact arithmetic; the division by \<open>L\<close> raises for \<open>L = 0\<close>.\<close>

definition coeff :: "real \<Rightarrow> int \<Rightarrow> nat \<Rightarrow> int \<Rightarrow> nat \<Rightarrow> nat \<Rightarrow> py_error + complex" where
  "coeff h k d L Rn Rm =
     (if L = 0 then Inl ZeroDivisionError
      else Inr (of_real h * exp (\<i> * of_int k * of_nat d * 2 * of_real pi / of_int L)
                  * of_real (sqrt (real Rn)) / of_real (sqrt (real Rm))))"

text \<open>The body of the inner loop, for one pair \<open>(m, h)\<close> of \<open>ActingH\<close>.\<close>

definition hnk_inner ::
  "int \<Rightarrow> int \<Rightarrow> int list \<Rightarrow> int \<Rightarrow> nat \<Rightarrow> int \<times> real \<Rightarrow> complex hnk_state \<Rightarrow> py_error + complex hnk_state" where
  "hnk_inner L k basisNk n b mh s =
     (case mh of (m, h) \<Rightarrow>
        bindE (Tlist m L) (\<lambda>Tm.
        bindE (minE Tm) (\<lambda>m_rs.
        bindE (period_in Tm m) (\<lambda>Rm.
        bindE (index_of Tm m_rs) (\<lambda>d.
        bindE (Tlist n L) (\<lambda>Tn.
        bindE (period_in Tn n) (\<lambda>Rn.
          if m_rs \<in> set basisNk then
            bindE (index_of basisNk m_rs) (\<lambda>a.
            bindE (coeff h k d L Rn Rm) (\<lambda>v.
              case pos s (a, b) of
                None \<Rightarrow>
                  Inr (s\<lparr>HNk_col := HNk_col s @ [a], HNk_row := HNk_row s @ [b],
                          HNk_val := HNk_val s @ [v],
                          pos := (pos s)((a, b) \<mapsto> length (HNk_col s))\<rparr>)
              | Some p \<Rightarrow>
                  if p < length (HNk_val s)
                  then Inr (s\<lparr>HNk_val := (HNk_val s)[p := HNk_val s ! p + v]\<rparr>)
                  else Inl IndexError))
          else Inr s)))))))"

text \<open>The body of the outer loop, for one basis state \<open>n\<close>.\<close>

definition hnk_outer ::
  "int \<Rightarrow> int \<Rightarrow> real \<Rightarrow> real \<Rightarrow> int list \<Rightarrow> int \<Rightarrow> complex hnk_state \<Rightarrow> py_error + complex hnk_state" where
  "hnk_outer L k J g basisNk n s =
     bindE (index_of basisNk n) (\<lambda>b.
     bindE (ActingH n L J g) (\<lambda>output.
       foldE (hnk_inner L k basisNk n b) output s))"

definition BuildHNk ::
  "int \<Rightarrow> int \<Rightarrow> real \<Rightarrow> real \<Rightarrow> py_error + (nat list \<times> nat list \<times> complex list \<times> nat \<times> int list)" where
  "BuildHNk L k J g =
     bindE (BuildBasisNk L k) (\<lambda>basisNk.
     bindE (foldE (hnk_outer L k J g basisNk) basisNk hnk_init) (\<lambda>s.
       Inr (HNk_col s, HNk_row s, HNk_val s, length basisNk, basisNk)))"

text \<open>The accumulated entry at a row and a column of the returned triplets: the sum of
  the values stored under that pair of indices, as the sparse assembly reads them.\<close>

definition entry ::
  "nat list \<times> nat list \<times> complex list \<times> nat \<times> int list \<Rightarrow> nat \<Rightarrow> nat \<Rightarrow> complex" where
  "entry res r c =
     (case res of (cols, rows, vals, _) \<Rightarrow>
        sum_list (map (\<lambda>(c', r', v). if r' = r \<and> c' = c then v else 0)
                      (zip cols (zip rows vals))))"

subsection \<open>The driver\<close>

text \<open>The locals of \<open>Task\<close> inside its loop over the sectors: the running offset
  \<open>count\<close> and the three triplet lists of the block-diagonal matrix.\<close>

record task_state =
  count :: nat
  Hx :: "nat list"
  Hy :: "nat list"
  Hn :: "complex list"

text \<open>The body of the loop over \<open>k\<close>: the triplets of the sector are appended with
  their indices shifted by \<open>count\<close>, and \<open>count\<close> grows by the dimension of the sector.\<close>

definition Task_step :: "int \<Rightarrow> real \<Rightarrow> real \<Rightarrow> int \<Rightarrow> task_state \<Rightarrow> py_error + task_state" where
  "Task_step L J g k s =
     bindE (BuildHNk L k J g) (\<lambda>res.
       case res of (X, Y, N, C, basis) \<Rightarrow>
         Inr \<lparr>count = count s + C,
              Hx = Hx s @ map (\<lambda>p. p + count s) X,
              Hy = Hy s @ map (\<lambda>p. p + count s) Y,
              Hn = Hn s @ map (\<lambda>p. p) N\<rparr>)"

text \<open>\<open>Task\<close> up to the calls of the sparse assembly and of the eigensolver, which
  are library code: the single pair \<open>J = 1\<close>, \<open>g = 1\<close> of its lists, and the loop over
  \<open>range(0, L)\<close>.\<close>

definition Task_triplets :: "int \<Rightarrow> py_error + task_state" where
  "Task_triplets L =
     foldE (Task_step L 1 1) (py_range 0 L) \<lparr>count = 0, Hx = [], Hy = [], Hn = []\<rparr>"

section \<open>The program over the arithmetic of its numbers\<close>

text \<open>
  The couplings \<open>J\<close> and \<open>g\<close> are Python numbers, ints or floats, and the values of the
  triplets are numpy complex numbers. Their arithmetic rounds, and converting an int
  that is too large to a float raises an OverflowError. This section follows
  \<open>ActingH\<close> and \<open>BuildHNk\<close> once more, statement by statement as above, with every
  operation on these numbers taken from a record: \<open>'a\<close> is the type of the couplings,
  \<open>'c\<close> the type of the stored values. What is proved for every such record holds for
  the arithmetic the interpreter uses, whatever it rounds. The fields are

  \<^item> \<open>num_zero\<close>, the literal \<open>0\<close>; \<open>num_neg\<close>, \<open>num_mul\<close>, \<open>num_sub\<close>, \<open>num_add\<close>: the
    operators \<open>- x\<close>, \<open>x * y\<close>, \<open>x - y\<close>, \<open>x + y\<close> on couplings, of which the binary
    ones may raise;
  \<^item> \<open>np_phase k d L\<close>: the expression \<open>np.exp(1j * k * d * 2 * math.pi / L)\<close>;
  \<^item> \<open>np_scale h z\<close>: the product \<open>h * z\<close> of a coupling and a complex value, which
    converts \<open>h\<close>;
  \<^item> \<open>np_mul_sqrt z R\<close> and \<open>np_div_sqrt z R\<close>: \<open>z * np.sqrt(R)\<close> and \<open>z / np.sqrt(R)\<close>;
  \<^item> \<open>np_add\<close>: the sum of two stored values.
\<close>

record ('a, 'c) arith =
  num_zero :: 'a
  num_neg :: "'a \<Rightarrow> 'a"
  num_mul :: "'a \<Rightarrow> 'a \<Rightarrow> py_error + 'a"
  num_sub :: "'a \<Rightarrow> 'a \<Rightarrow> py_error + 'a"
  num_add :: "'a \<Rightarrow> 'a \<Rightarrow> py_error + 'a"
  np_phase :: "int \<Rightarrow> nat \<Rightarrow> int \<Rightarrow> py_error + 'c"
  np_scale :: "'a \<Rightarrow> 'c \<Rightarrow> py_error + 'c"
  np_mul_sqrt :: "'c \<Rightarrow> nat \<Rightarrow> 'c"
  np_div_sqrt :: "'c \<Rightarrow> nat \<Rightarrow> 'c"
  np_add :: "'c \<Rightarrow> 'c \<Rightarrow> 'c"

text \<open>One bond of the loop over \<open>ising\<close>: \<open>diag = diag - J\<close> or \<open>diag = diag + J\<close>.\<close>

definition bond_step_num ::
  "('a, 'c) arith \<Rightarrow> int \<Rightarrow> 'a \<Rightarrow> int \<times> int \<Rightarrow> 'a \<Rightarrow> py_error + 'a" where
  "bond_step_num A n J j diag =
     bindE (ReadBit n (fst j)) (\<lambda>x.
     bindE (ReadBit n (snd j)) (\<lambda>y.
       if x = y then num_sub A diag J else num_add A diag J))"

text \<open>\<open>ActingH\<close>: the amplitude \<open>- J * g\<close> is evaluated in every round of the first
  loop, and \<open>diag\<close> starts from the literal \<open>0\<close>.\<close>

definition ActingH_num ::
  "('a, 'c) arith \<Rightarrow> int \<Rightarrow> int \<Rightarrow> 'a \<Rightarrow> 'a \<Rightarrow> py_error + (int \<times> 'a) list" where
  "ActingH_num A n L J g =
     (let ising = map (\<lambda>i. (i, (i + 1) mod L)) (py_range 0 L)
      in bindE (mapE (\<lambda>i. bindE (num_mul A (num_neg A J) g)
                              (\<lambda>h. Inr (n XOR push_bit (nat i) 1, h))) (py_range 0 L))
           (\<lambda>output.
         bindE (foldE (bond_step_num A n J) ising (num_zero A)) (\<lambda>diag.
           Inr (output @ [(n, diag)]))))"

text \<open>\<open>h * np.exp(1j * k * d * 2 * math.pi / L) * np.sqrt(Rn) / np.sqrt(Rm)\<close>, from
  left to right.\<close>

definition coeff_num ::
  "('a, 'c) arith \<Rightarrow> 'a \<Rightarrow> int \<Rightarrow> nat \<Rightarrow> int \<Rightarrow> nat \<Rightarrow> nat \<Rightarrow> py_error + 'c" where
  "coeff_num A h k d L Rn Rm =
     bindE (np_phase A k d L) (\<lambda>z.
     bindE (np_scale A h z) (\<lambda>w.
       Inr (np_div_sqrt A (np_mul_sqrt A w Rn) Rm)))"

text \<open>The body of the inner loop of \<open>BuildHNk\<close>.\<close>

definition hnk_inner_num ::
  "('a, 'c) arith \<Rightarrow> int \<Rightarrow> int \<Rightarrow> int list \<Rightarrow> int \<Rightarrow> nat \<Rightarrow> int \<times> 'a
     \<Rightarrow> 'c hnk_state \<Rightarrow> py_error + 'c hnk_state" where
  "hnk_inner_num A L k basisNk n b mh s =
     (case mh of (m, h) \<Rightarrow>
        bindE (Tlist m L) (\<lambda>Tm.
        bindE (minE Tm) (\<lambda>m_rs.
        bindE (period_in Tm m) (\<lambda>Rm.
        bindE (index_of Tm m_rs) (\<lambda>d.
        bindE (Tlist n L) (\<lambda>Tn.
        bindE (period_in Tn n) (\<lambda>Rn.
          if m_rs \<in> set basisNk then
            bindE (index_of basisNk m_rs) (\<lambda>a.
            bindE (coeff_num A h k d L Rn Rm) (\<lambda>v.
              case pos s (a, b) of
                None \<Rightarrow>
                  Inr (s\<lparr>HNk_col := HNk_col s @ [a], HNk_row := HNk_row s @ [b],
                          HNk_val := HNk_val s @ [v],
                          pos := (pos s)((a, b) \<mapsto> length (HNk_col s))\<rparr>)
              | Some p \<Rightarrow>
                  if p < length (HNk_val s)
                  then Inr (s\<lparr>HNk_val := (HNk_val s)[p := np_add A (HNk_val s ! p) v]\<rparr>)
                  else Inl IndexError))
          else Inr s)))))))"

text \<open>The body of the outer loop of \<open>BuildHNk\<close>.\<close>

definition hnk_outer_num ::
  "('a, 'c) arith \<Rightarrow> int \<Rightarrow> int \<Rightarrow> 'a \<Rightarrow> 'a \<Rightarrow> int list \<Rightarrow> int
     \<Rightarrow> 'c hnk_state \<Rightarrow> py_error + 'c hnk_state" where
  "hnk_outer_num A L k J g basisNk n s =
     bindE (index_of basisNk n) (\<lambda>b.
     bindE (ActingH_num A n L J g) (\<lambda>output.
       foldE (hnk_inner_num A L k basisNk n b) output s))"

definition BuildHNk_num ::
  "('a, 'c) arith \<Rightarrow> int \<Rightarrow> int \<Rightarrow> 'a \<Rightarrow> 'a
     \<Rightarrow> py_error + (nat list \<times> nat list \<times> 'c list \<times> nat \<times> int list)" where
  "BuildHNk_num A L k J g =
     bindE (BuildBasisNk L k) (\<lambda>basisNk.
     bindE (foldE (hnk_outer_num A L k J g basisNk) basisNk hnk_init) (\<lambda>s.
       Inr (HNk_col s, HNk_row s, HNk_val s, length basisNk, basisNk)))"

subsection \<open>Exact arithmetic\<close>

text \<open>The operations on exact reals and exact complex numbers, with which the
  definitions of this section are those of the first one.\<close>

definition exact_arith :: "(real, complex) arith" where
  "exact_arith =
     \<lparr>num_zero = 0, num_neg = uminus,
      num_mul = (\<lambda>x y. Inr (x * y)),
      num_sub = (\<lambda>x y. Inr (x - y)),
      num_add = (\<lambda>x y. Inr (x + y)),
      np_phase = (\<lambda>k d L. if L = 0 then Inl ZeroDivisionError
                    else Inr (exp (\<i> * of_int k * of_nat d * 2 * of_real pi / of_int L))),
      np_scale = (\<lambda>h z. Inr (of_real h * z)),
      np_mul_sqrt = (\<lambda>z R. z * of_real (sqrt (real R))),
      np_div_sqrt = (\<lambda>z R. z / of_real (sqrt (real R))),
      np_add = (+)\<rparr>"

subsection \<open>Double precision\<close>

text \<open>
  A float is a binary64 number, and numpy's complex values are pairs of them. A finite
  double is written here as the rational number it denotes. The result of an
  operation is the exact result rounded to \<open>53\<close> significant bits, to the nearest
  double and to the even one of two nearest (\<open>fl\<close>); this is how the machine adds,
  subtracts, multiplies, divides, takes square roots and converts integers.
  The limits of the exponent are left out: results of magnitude \<open>2 ^ 1024\<close> and more,
  which the machine replaces by an infinity, and results below \<open>2 ^ - 1022\<close>, which it
  rounds more coarsely, do not occur in the runs evaluated below.
\<close>

text \<open>The number of binary digits of a positive integer.\<close>

function bit_length :: "int \<Rightarrow> nat" where
  "bit_length n = (if n \<le> 0 then 0 else Suc (bit_length (n div 2)))"
  by pat_completeness auto

termination bit_length
  by (relation "measure nat") auto

declare bit_length.simps [simp del]

definition pow2 :: "int \<Rightarrow> rat" where
  "pow2 e = (if 0 \<le> e then 2 ^ nat e else 1 / 2 ^ nat (- e))"

text \<open>The binary exponent of a positive rational \<open>x\<close>: the \<open>e\<close> with
  \<open>2 ^ e \<le> x < 2 ^ (e + 1)\<close>.\<close>

definition exponent :: "rat \<Rightarrow> int" where
  "exponent x =
     (case quotient_of x of (a, b) \<Rightarrow>
        let e = int (bit_length a) - int (bit_length b)
        in if pow2 e \<le> x then e else e - 1)"

text \<open>The nearest integer, the even one of two nearest.\<close>

definition round_even :: "rat \<Rightarrow> int" where
  "round_even t =
     (let f = \<lfloor>t\<rfloor>; r = t - of_int f
      in if r < 1 / 2 \<or> (r = 1 / 2 \<and> even f) then f else f + 1)"

text \<open>Rounding to a double: to a multiple of the unit in the last of \<open>53\<close> places.\<close>

definition fl :: "rat \<Rightarrow> rat" where
  "fl x = (if x = 0 then 0
           else let u = pow2 (exponent \<bar>x\<bar> - 52) in of_int (round_even (x / u)) * u)"

text \<open>The integer square root, rounded down.\<close>

function isqrt :: "int \<Rightarrow> int" where
  "isqrt n = (if n < 2 then n
              else let r = 2 * isqrt (n div 4) in if (r + 1) * (r + 1) \<le> n then r + 1 else r)"
  by pat_completeness auto

termination isqrt
  by (relation "measure nat") auto

declare isqrt.simps [simp del]

text \<open>The square root of a double, rounded to a double: with \<open>u\<close> the unit in the last
  place of the root, \<open>f\<close> is the root in units of \<open>u\<close> rounded down, and the root is
  nearer to \<open>f + 1\<close> when the square of \<open>f + 1 / 2\<close> is below the radicand.\<close>

definition fsqrt :: "rat \<Rightarrow> rat" where
  "fsqrt x =
     (if x \<le> 0 then 0
      else let e = exponent x div 2; u = pow2 (e - 52); q = x / (u * u);
               f = isqrt \<lfloor>q\<rfloor>; h = (of_int f + 1 / 2) * (of_int f + 1 / 2)
           in (if q < h \<or> (q = h \<and> even f) then of_int f else of_int f + 1) * u)"

text \<open>A Python number is an int, unbounded, or a float.\<close>

datatype py_num = PyInt int | PyFloat rat

text \<open>The conversion to a float, which raises when the int rounds to \<open>2 ^ 1024\<close> or
  more.\<close>

definition to_float :: "py_num \<Rightarrow> py_error + rat" where
  "to_float x =
     (case x of
        PyFloat y \<Rightarrow> Inr y
      | PyInt i \<Rightarrow>
          if 2 ^ 1024 \<le> \<bar>fl (of_int i)\<bar> then Inl OverflowError else Inr (fl (of_int i)))"

definition py_neg :: "py_num \<Rightarrow> py_num" where
  "py_neg x = (case x of PyInt i \<Rightarrow> PyInt (- i) | PyFloat y \<Rightarrow> PyFloat (- y))"

text \<open>A binary operator: exact on two ints, and on floats after conversion.\<close>

definition py_binop ::
  "(int \<Rightarrow> int \<Rightarrow> int) \<Rightarrow> (rat \<Rightarrow> rat \<Rightarrow> rat) \<Rightarrow> py_num \<Rightarrow> py_num \<Rightarrow> py_error + py_num" where
  "py_binop iop fop x y =
     (case (x, y) of
        (PyInt i, PyInt j) \<Rightarrow> Inr (PyInt (iop i j))
      | _ \<Rightarrow> bindE (to_float x) (\<lambda>a. bindE (to_float y) (\<lambda>b. Inr (PyFloat (fl (fop a b))))))"

text \<open>Complex values: the real and the imaginary part.\<close>

type_synonym cfloat = "rat \<times> rat"

definition cmul :: "cfloat \<Rightarrow> cfloat \<Rightarrow> cfloat" where
  "cmul z w =
     (case z of (a, b) \<Rightarrow> case w of (c, d) \<Rightarrow>
        (fl (fl (a * c) - fl (b * d)), fl (fl (a * d) + fl (b * c))))"

definition cadd :: "cfloat \<Rightarrow> cfloat \<Rightarrow> cfloat" where
  "cadd z w = (case z of (a, b) \<Rightarrow> case w of (c, d) \<Rightarrow> (fl (a + c), fl (b + d)))"

text \<open>The quotient of two Python complex numbers, which raises for the divisor zero.\<close>

definition py_cdiv :: "cfloat \<Rightarrow> cfloat \<Rightarrow> py_error + cfloat" where
  "py_cdiv z w =
     (case z of (a, b) \<Rightarrow> case w of (c, d) \<Rightarrow>
        if \<bar>d\<bar> \<le> \<bar>c\<bar> then
          (if c = 0 then Inl ZeroDivisionError
           else Inr (fl (fl (a + fl (b * fl (d / c))) / fl (c + fl (d * fl (d / c)))),
                     fl (fl (b - fl (a * fl (d / c))) / fl (c + fl (d * fl (d / c))))))
        else Inr (fl (fl (fl (a * fl (c / d)) + b) / fl (fl (c * fl (c / d)) + d)),
                  fl (fl (fl (b * fl (c / d)) - a) / fl (fl (c * fl (c / d)) + d))))"

text \<open>The quotient of two numpy complex numbers, which multiplies by the inverse of
  the scaled divisor.\<close>

definition np_cdiv :: "cfloat \<Rightarrow> cfloat \<Rightarrow> cfloat" where
  "np_cdiv z w =
     (case z of (a, b) \<Rightarrow> case w of (c, d) \<Rightarrow>
        if \<bar>d\<bar> \<le> \<bar>c\<bar> then
          (fl (fl (a + fl (b * fl (d / c))) * fl (1 / fl (c + fl (d * fl (d / c))))),
           fl (fl (b - fl (a * fl (d / c))) * fl (1 / fl (c + fl (d * fl (d / c))))))
        else
          (fl (fl (fl (a * fl (c / d)) + b) * fl (1 / fl (d + fl (c * fl (c / d))))),
           fl (fl (fl (b * fl (c / d)) - a) * fl (1 / fl (d + fl (c * fl (c / d)))))))"

text \<open>\<open>math.pi\<close>, the double \<open>3.141592653589793\<close>.\<close>

definition math_pi :: rat where
  "math_pi = 884279719003555 / 281474976710656"

text \<open>The argument \<open>1j * k * d * 2 * math.pi / L\<close> is a Python complex number; the
  exponential of the library is a parameter.\<close>

definition py_phase :: "(cfloat \<Rightarrow> cfloat) \<Rightarrow> int \<Rightarrow> nat \<Rightarrow> int \<Rightarrow> py_error + cfloat" where
  "py_phase cexp k d L =
     bindE (to_float (PyInt k)) (\<lambda>k'.
     bindE (to_float (PyInt (int d))) (\<lambda>d'.
     bindE (to_float (PyInt L)) (\<lambda>L'.
     bindE (py_cdiv (cmul (cmul (cmul (cmul (0, 1) (k', 0)) (d', 0)) (2, 0)) (math_pi, 0)) (L', 0))
       (\<lambda>z. Inr (cexp z)))))"

text \<open>The arithmetic of the interpreter and of numpy.\<close>

definition py_arith :: "(cfloat \<Rightarrow> cfloat) \<Rightarrow> (py_num, cfloat) arith" where
  "py_arith cexp =
     \<lparr>num_zero = PyInt 0, num_neg = py_neg,
      num_mul = py_binop (*) (*),
      num_sub = py_binop (-) (-),
      num_add = py_binop (+) (+),
      np_phase = py_phase cexp,
      np_scale = (\<lambda>h z. bindE (to_float h) (\<lambda>x. Inr (cmul (x, 0) z))),
      np_mul_sqrt = (\<lambda>z R. cmul z (fsqrt (of_nat R), 0)),
      np_div_sqrt = (\<lambda>z R. np_cdiv z (fsqrt (of_nat R), 0)),
      np_add = cadd\<rparr>"

text \<open>In the sector \<open>k = 0\<close> every argument of the exponential is \<open>0j\<close>, where it
  returns \<open>1 + 0j\<close>.\<close>

definition exp_at_zero :: "cfloat \<Rightarrow> cfloat" where
  "exp_at_zero z = (1, 0)"

section \<open>Auxiliary notions used in the proofs\<close>

text \<open>The value \<open>RotLBit\<close> computes when the shift count is in range, with natural
  numbers for the length and the shift.\<close>

definition rotl :: "nat \<Rightarrow> nat \<Rightarrow> int \<Rightarrow> int" where
  "rotl L s n = push_bit s (take_bit (L - s) n) + drop_bit (L - s) n"

text \<open>The number of \<open>1\<close> digits in the binary numeral of a natural number.\<close>

definition ones :: "nat \<Rightarrow> nat" where
  "ones n = count_list (bin_digits n) (CHR ''1'')"

text \<open>The contribution of one bond to the diagonal term.\<close>

definition bond_sign :: "int \<Rightarrow> real \<Rightarrow> nat \<Rightarrow> nat \<Rightarrow> real" where
  "bond_sign n J i j = (if bit n i = bit n j then - J else J)"

text \<open>Rotation of an \<open>L\<close>-bit state by any integer number of positions.\<close>

definition cyc :: "nat \<Rightarrow> int \<Rightarrow> int \<Rightarrow> int" where
  "cyc L t n = rotl L (nat (t mod int L)) n"

text \<open>The \<open>L\<close>-bit states: the integers from \<open>0\<close> up to \<open>2 ^ L - 1\<close>.\<close>

definition states :: "nat \<Rightarrow> int set" where
  "states L = {n. 0 \<le> n \<and> n < 2 ^ L}"

text \<open>The least positive number of rotations that maps a state to itself.\<close>

definition period :: "nat \<Rightarrow> int \<Rightarrow> nat" where
  "period L n = (LEAST r. 0 < r \<and> cyc L (int r) n = n)"

text \<open>The states reached from a state by rotation.\<close>

definition orbit :: "nat \<Rightarrow> int \<Rightarrow> int set" where
  "orbit L n = (\<lambda>i. cyc L (int i) n) ` {..<L}"

text \<open>The representative of a state: the least state of its orbit.\<close>

definition rep :: "nat \<Rightarrow> int \<Rightarrow> int" where
  "rep L n = Min (orbit L n)"

text \<open>The least number of rotations that maps a state to its representative.\<close>

definition rdist :: "nat \<Rightarrow> int \<Rightarrow> nat" where
  "rdist L n = (LEAST i. cyc L (int i) n = rep L n)"

text \<open>The test of \<open>basis_step\<close>: the state is its own representative and its period is compatible with the momentum \<open>k\<close>.\<close>

definition in_sector :: "nat \<Rightarrow> int \<Rightarrow> int \<Rightarrow> bool" where
  "in_sector L k n \<longleftrightarrow> rep L n = n \<and> (k * int (period L n)) mod int L = 0"

text \<open>The list \<open>range(0, 2 ** L)\<close>.\<close>

definition all_states :: "nat \<Rightarrow> int list" where
  "all_states L = map int [0..<2 ^ L]"

text \<open>The list \<open>BuildBasisNk\<close> returns for a positive length.\<close>

definition basis :: "nat \<Rightarrow> int \<Rightarrow> int list" where
  "basis L k = filter (in_sector L k) (all_states L)"

text \<open>The value \<open>coeff\<close> computes for a non-zero length.\<close>

definition amp :: "int \<Rightarrow> int \<Rightarrow> real \<Rightarrow> nat \<Rightarrow> nat \<Rightarrow> nat \<Rightarrow> complex" where
  "amp L k h d Rn Rm =
     of_real h * exp (\<i> * of_int k * of_nat d * 2 * of_real pi / of_int L)
       * of_real (sqrt (real Rn)) / of_real (sqrt (real Rm))"

text \<open>The triplets stored so far, as (column, row, value).\<close>

definition triples :: "complex hnk_state \<Rightarrow> (nat \<times> nat \<times> complex) list" where
  "triples s = zip (HNk_col s) (zip (HNk_row s) (HNk_val s))"

text \<open>The value of a triplet when it lies at the given row and column, else zero.\<close>

definition pick :: "nat \<Rightarrow> nat \<Rightarrow> nat \<times> nat \<times> complex \<Rightarrow> complex" where
  "pick r c t = (case t of (c', r', v) \<Rightarrow> if r' = r \<and> c' = c then v else 0)"

text \<open>The accumulated entry of the loop state at a row and a column.\<close>

definition entry_of :: "complex hnk_state \<Rightarrow> nat \<Rightarrow> nat \<Rightarrow> complex" where
  "entry_of s r c = sum_list (map (pick r c) (triples s))"

text \<open>The loop invariant of \<open>BuildHNk\<close>: the three lists have one length, and \<open>pos\<close> maps exactly the stored pairs to their slots.\<close>

definition hnk_inv :: "'c hnk_state \<Rightarrow> bool" where
  "hnk_inv s \<longleftrightarrow>
     length (HNk_row s) = length (HNk_col s) \<and> length (HNk_val s) = length (HNk_col s)
     \<and> (\<forall>a b p. pos s (a, b) = Some p \<longleftrightarrow>
            p < length (HNk_col s) \<and> HNk_col s ! p = a \<and> HNk_row s ! p = b)"

text \<open>The accumulation at the end of the inner loop body: a new triplet, or an addition to the stored value.\<close>

definition store :: "nat \<Rightarrow> nat \<Rightarrow> complex \<Rightarrow> complex hnk_state \<Rightarrow> py_error + complex hnk_state" where
  "store a b v s =
     (case pos s (a, b) of
        None \<Rightarrow>
          Inr (s\<lparr>HNk_col := HNk_col s @ [a], HNk_row := HNk_row s @ [b],
                  HNk_val := HNk_val s @ [v],
                  pos := (pos s)((a, b) \<mapsto> length (HNk_col s))\<rparr>)
      | Some p \<Rightarrow>
          if p < length (HNk_val s)
          then Inr (s\<lparr>HNk_val := (HNk_val s)[p := HNk_val s ! p + v]\<rparr>)
          else Inl IndexError)"

text \<open>The diagonal term of \<open>ActingH\<close>: the sum over the bonds of the ring.\<close>

definition diag_sum :: "nat \<Rightarrow> real \<Rightarrow> int \<Rightarrow> real" where
  "diag_sum L J n = (\<Sum>i = 0..<L. bond_sign n J i ((i + 1) mod L))"

text \<open>The list \<open>ActingH\<close> returns.\<close>

definition acts :: "nat \<Rightarrow> real \<Rightarrow> real \<Rightarrow> int \<Rightarrow> (int \<times> real) list" where
  "acts L J g n = map (\<lambda>i. (n XOR push_bit i 1, - J * g)) [0..<L] @ [(n, diag_sum L J n)]"

text \<open>What one pair of \<open>ActingH\<close> adds to the entry at row \<open>r\<close> and column \<open>c\<close>.\<close>

definition contrib :: "nat \<Rightarrow> int \<Rightarrow> int list \<Rightarrow> int \<Rightarrow> int \<times> real \<Rightarrow> nat \<Rightarrow> nat \<Rightarrow> complex" where
  "contrib L k B n mh r c =
     (case mh of (m, h) \<Rightarrow>
        if r < length B \<and> B ! r = n \<and> c < length B \<and> B ! c = rep L m
        then amp (int L) k h (rdist L m) (period L n) (period L m) else 0)"

text \<open>What the pairs of one basis state add to the entry at row \<open>r\<close> and column \<open>c\<close>.\<close>

definition row_contrib ::
  "nat \<Rightarrow> int \<Rightarrow> real \<Rightarrow> real \<Rightarrow> int list \<Rightarrow> int \<Rightarrow> nat \<Rightarrow> nat \<Rightarrow> complex" where
  "row_contrib L k J g B n r c = sum_list (map (\<lambda>mh. contrib L k B n mh r c) (acts L J g n))"

text \<open>The pair of indices under which one pair of \<open>ActingH\<close> is stored, if any.\<close>

definition ckey :: "nat \<Rightarrow> int list \<Rightarrow> int \<Rightarrow> int \<times> real \<Rightarrow> (nat \<times> nat) set" where
  "ckey L B n mh = {(c, r). r < length B \<and> B ! r = n \<and> c < length B \<and> B ! c = rep L (fst mh)}"

text \<open>The pairs of indices stored for one basis state.\<close>

definition row_keys :: "nat \<Rightarrow> real \<Rightarrow> real \<Rightarrow> int list \<Rightarrow> int \<Rightarrow> (nat \<times> nat) set" where
  "row_keys L J g B n = (\<Union>mh\<in>set (acts L J g n). ckey L B n mh)"

text \<open>The phase factor \<open>exp (2 * pi * \<i> * x / L)\<close>.\<close>

definition uroot :: "nat \<Rightarrow> int \<Rightarrow> complex" where
  "uroot L x = cis (2 * pi * real_of_int x / real L)"

text \<open>The sum of the phase factors of the single-bit flips of \<open>n\<close> whose representative is \<open>m\<close>.\<close>

definition hop :: "nat \<Rightarrow> int \<Rightarrow> int \<Rightarrow> int \<Rightarrow> complex" where
  "hop L k n m =
     (\<Sum>i = 0..<L. if rep L (n XOR push_bit i 1) = m
                    then uroot L (k * int (rdist L (n XOR push_bit i 1))) else 0)"

text \<open>The sum of the phase factors over all flips of \<open>n\<close> and all rotations that map the flipped state to \<open>m\<close>.\<close>

definition link :: "nat \<Rightarrow> int \<Rightarrow> int \<Rightarrow> int \<Rightarrow> complex" where
  "link L k n m =
     (\<Sum>i = 0..<L. \<Sum>s = 0..<L. if cyc L (int s) (n XOR push_bit i 1) = m
                                   then uroot L (k * int s) else 0)"

text \<open>The change of summation index that exchanges the two arguments of \<open>link\<close>.\<close>

definition turn :: "nat \<Rightarrow> nat \<times> nat \<Rightarrow> nat \<times> nat" where
  "turn L p = (nat ((int (fst p) + int (snd p)) mod int L), nat ((- int (snd p)) mod int L))"

text \<open>The diagonal term of \<open>ActingH\<close> in the arithmetic of the program: the bonds
  \<open>(i, (i + 1) mod L)\<close> are taken in the order \<open>i = 0, 1, \<dots>\<close>, starting from the literal
  \<open>0\<close>, and a bond subtracts \<open>J\<close> when its two bits are equal and adds \<open>J\<close> when they
  differ. The last argument is the number of bonds taken.\<close>

fun bond_sum :: "('a, 'c) arith \<Rightarrow> int \<Rightarrow> nat \<Rightarrow> 'a \<Rightarrow> nat \<Rightarrow> py_error + 'a" where
  "bond_sum A n L J 0 = Inr (num_zero A)"
| "bond_sum A n L J (Suc i) =
     bindE (bond_sum A n L J i)
       (\<lambda>d. if bit n i = bit n ((i + 1) mod L) then num_sub A d J else num_add A d J)"

section \<open>Bit-level facts\<close>

lemma bindE_Inr [simp]: "bindE (Inr x) f = f x"
  by (simp add: bindE_def)

lemma bindE_Inl [simp]: "bindE (Inl e) f = Inl e"
  by (simp add: bindE_def)

lemma PickBit_0: "0 \<le> w \<Longrightarrow> PickBit i 0 w = Inr (take_bit (nat w) i)"
  by (simp add: PickBit_def take_bit_eq_mask mask_eq_exp_minus_1)

lemma RotLBit_rotl: "0 \<le> s \<Longrightarrow> s \<le> L \<Longrightarrow> RotLBit n L s = Inr (rotl (nat L) (nat s) n)"
  by (simp add: RotLBit_def PickBit_0 rotl_def nat_diff_distrib)

lemma RotRBit_eq: "0 \<le> s \<Longrightarrow> s \<le> L \<Longrightarrow>
   RotRBit x L s = Inr (push_bit (nat L - nat s) (take_bit (nat s) x) + drop_bit (nat s) x)"
  by (simp add: RotRBit_def PickBit_0 nat_diff_distrib)

lemma state_bit_bound: "0 \<le> (n::int) \<Longrightarrow> n < 2 ^ L \<Longrightarrow> bit n j \<Longrightarrow> j < L"
  by (metis bit_take_bit_iff take_bit_int_eq_self)

lemma rotl_or:
  assumes "0 \<le> n" "n < 2 ^ L" "s \<le> L"
  shows "rotl L s n = push_bit s (take_bit (L - s) n) OR drop_bit (L - s) n"
  unfolding rotl_def
proof (rule disjunctive_add_eq_or)
  show "push_bit s (take_bit (L - s) n) AND drop_bit (L - s) n = 0"
  proof (rule bit_eqI)
    fix j
    show "bit (push_bit s (take_bit (L - s) n) AND drop_bit (L - s) n) j = bit (0::int) j"
      using state_bit_bound[OF assms(1,2), of "L - s + j"] assms(3)
      by (auto simp add: bit_simps)
  qed
qed

lemma rotl_bit:
  assumes "0 \<le> n" "n < 2 ^ L" "s \<le> L"
  shows "bit (rotl L s n) j \<longleftrightarrow> j < L \<and> bit n ((j + (L - s)) mod L)"
proof (cases "j < s")
  case True
  define q where "q = j + (L - s)"
  have q: "q < L" "q = L - s + j" "q mod L = q" using True assms(3) by (simp_all add: q_def)
  have "bit (rotl L s n) j \<longleftrightarrow> bit n q"
    using True assms(3) by (simp add: rotl_or[OF assms] bit_simps q)
  then show ?thesis using True assms(3) q unfolding q_def[symmetric] by auto
next
  case False
  define q where "q = j + (L - s)"
  have "q = L + (j - s)" using False assms(3) by (simp add: q_def)
  then have q: "j < L \<Longrightarrow> q mod L = j - s" by simp
  have "bit (rotl L s n) j \<longleftrightarrow> j - s < L - s \<and> bit n (j - s)"
    using False assms(3) state_bit_bound[OF assms(1,2), of "L - s + j"]
    by (auto simp add: rotl_or[OF assms] bit_simps)
  moreover have "j - s < L - s \<longleftrightarrow> j < L" using False assms(3) by auto
  ultimately show ?thesis using q unfolding q_def[symmetric] by auto
qed

lemma rotl_range:
  assumes "0 \<le> n" "n < 2 ^ L" "s \<le> L"
  shows "0 \<le> rotl L s n \<and> rotl L s n < 2 ^ L"
proof -
  have "take_bit L (rotl L s n) = rotl L s n"
    by (rule bit_eqI) (auto simp add: bit_take_bit_iff rotl_bit[OF assms])
  then show ?thesis by (simp add: take_bit_int_eq_self_iff)
qed

lemma rotl_0: "0 \<le> n \<Longrightarrow> n < 2 ^ L \<Longrightarrow> rotl L 0 n = n"
  by (simp add: rotl_def take_bit_int_eq_self drop_bit_int_def)

lemma rotl_L: "rotl L L n = n"
  by (simp add: rotl_def)

lemma rotl_rotl_inv:
  assumes "0 \<le> n" "n < 2 ^ L" "s \<le> L"
  shows "rotl L (L - s) (rotl L s n) = n"
proof (rule bit_eqI)
  fix j
  have r: "0 \<le> rotl L s n" "rotl L s n < 2 ^ L" using rotl_range[OF assms] by auto
  have "((j + s) mod L + (L - s)) mod L = (j + s + (L - s)) mod L"
    by (simp add: mod_add_left_eq)
  also have "\<dots> = j mod L" using assms(3) by simp
  finally have *: "((j + s) mod L + (L - s)) mod L = j mod L" .
  have "bit (rotl L (L - s) (rotl L s n)) j \<longleftrightarrow> j < L \<and> bit n (j mod L)"
    using assms(3) * by (auto simp add: rotl_bit[OF r] rotl_bit[OF assms])
  then show "bit (rotl L (L - s) (rotl L s n)) j = bit n j"
    using state_bit_bound[OF assms(1,2), of j] by auto
qed

lemma RotRBit_rotl: "0 \<le> s \<Longrightarrow> s \<le> L \<Longrightarrow> RotRBit x L s = Inr (rotl (nat L) (nat L - nat s) x)"
  by (simp add: RotRBit_eq rotl_def)

lemma ones_rec: "ones n = (if n = 0 then 0 else n mod 2 + ones (n div 2))"
proof (cases "n < 2")
  case True
  then have "n = 0 \<or> n = 1" by auto
  then show ?thesis by (auto simp add: ones_def bin_digits.simps[of 0] bin_digits.simps[of 1] bin_digits.simps[of "Suc 0"])
next
  case False
  then show ?thesis
    by (subst ones_def, subst bin_digits.simps) (auto simp add: ones_def)
qed

lemma finite_bits_nat: "finite {j. bit (n::nat) j}"
proof -
  have "int n < 2 ^ n" by (metis of_nat_less_two_power)
  then have "{j. bit n j} \<subseteq> {..<n}"
    using state_bit_bound[of "int n" n] by (auto simp add: bit_of_nat_iff_bit)
  then show ?thesis by (rule finite_subset) simp
qed

lemma ones_card: "ones n = card {j. bit n j}"
proof (induction n rule: less_induct)
  case (less n)
  show ?case
  proof (cases "n = 0")
    case True
    then show ?thesis by (subst ones_rec) (simp add: bot_fun_def)
  next
    case False
    then have IH: "ones (n div 2) = card {j. bit (n div 2) j}" using less by simp
    have fin: "finite {j. bit (n div 2) j}" by (rule finite_bits_nat)
    have "{j. bit n j} = (if odd n then {0} else {}) \<union> Suc ` {j. bit (n div 2) j}"
    proof (rule set_eqI)
      fix j show "j \<in> {j. bit n j} \<longleftrightarrow> j \<in> (if odd n then {0} else {}) \<union> Suc ` {j. bit (n div 2) j}"
        by (cases j) (auto simp add: bit_0 bit_Suc)
    qed
    moreover have "card ((if odd n then {0} else {}) \<union> Suc ` {j. bit (n div 2) j})
        = (if odd n then 1 else 0) + card (Suc ` {j. bit (n div 2) j})"
      using fin by (subst card_Un_disjoint) (auto)
    moreover have "card (Suc ` {j. bit (n div 2) j}) = card {j. bit (n div 2) j}"
      by (rule card_image) simp
    ultimately have "card {j. bit n j} = (if odd n then 1 else 0) + ones (n div 2)"
      using IH by simp
    then show ?thesis using False by (subst ones_rec) (auto simp add: odd_iff_mod_2_eq_one)
  qed
qed

lemma CountBit_card: "0 \<le> i \<Longrightarrow> CountBit i = card {j. bit i j}"
  by (simp add: CountBit_def binary_repr_def ones_def[symmetric] ones_card bit_nat_iff)

lemma CountBit_rotl:
  assumes "0 \<le> n" "n < 2 ^ L" "s \<le> L"
  shows "CountBit (rotl L s n) = CountBit n"
proof -
  define f where "f j = (j + (L - s)) mod L" for j
  define g where "g i = (i + s) mod L" for i
  have fg: "f (g i) = i" if "i < L" for i
  proof -
    have "f (g i) = (i + s + (L - s)) mod L" by (simp add: f_def g_def mod_add_left_eq)
    also have "\<dots> = i" using assms(3) that by simp
    finally show ?thesis .
  qed
  have gf: "g (f j) = j" if "j < L" for j
  proof -
    have "g (f j) = (j + (L - s) + s) mod L" by (simp add: f_def g_def mod_add_left_eq)
    also have "\<dots> = j" using assms(3) that by simp
    finally show ?thesis .
  qed
  have bnd: "bit n i \<Longrightarrow> i < L" for i using state_bit_bound[OF assms(1,2)] .
  have "bij_betw f {j. j < L \<and> bit n (f j)} {i. bit n i}"
  proof (rule bij_betw_byWitness[where f' = g])
    show "\<forall>a\<in>{j. j < L \<and> bit n (f j)}. g (f a) = a" using gf by auto
    show "\<forall>a'\<in>{i. bit n i}. f (g a') = a'" using fg bnd by auto
    show "f ` {j. j < L \<and> bit n (f j)} \<subseteq> {i. bit n i}" by auto
    show "g ` {i. bit n i} \<subseteq> {j. j < L \<and> bit n (f j)}"
    proof
      fix j assume "j \<in> g ` {i. bit n i}"
      then obtain i where i: "bit n i" "j = g i" by auto
      then have "i < L" using bnd by simp
      then have "g i < L" "f (g i) = i" using fg by (simp_all add: g_def)
      then show "j \<in> {j. j < L \<and> bit n (f j)}" using i by simp
    qed
  qed
  then have "card {j. j < L \<and> bit n (f j)} = card {i. bit n i}"
    by (rule bij_betw_same_card)
  moreover have "{j. bit (rotl L s n) j} = {j. j < L \<and> bit n (f j)}"
    by (simp add: rotl_bit[OF assms] f_def)
  ultimately show ?thesis
    using rotl_range[OF assms] assms(1) by (simp add: CountBit_card)
qed

lemma py_range_nat: "py_range 0 (int n) = map int [0..<n]"
proof (induction n)
  case 0
  show ?case by (simp add: py_range_def)
next
  case (Suc n)
  have "[0..int (Suc n) - 1] = [0..int n - 1] @ [int n]"
    using upto_rec2[of 0 "int n"] by simp
  then show ?case using Suc by (simp add: py_range_def)
qed

lemma py_range_0: "py_range 0 L = map int [0..<nat L]"
proof (cases "0 \<le> L")
  case True
  then show ?thesis using py_range_nat[of "nat L"] by simp
next
  case False
  then show ?thesis by (simp add: py_range_def)
qed

lemma read_bit_val: "drop_bit i ((n::int) AND push_bit i 1) = of_bool (bit n i)"
  by (rule bit_eqI) (auto simp add: bit_simps)

lemma ReadBit_bit: "0 \<le> i \<Longrightarrow> ReadBit n i = Inr (of_bool (bit n (nat i)))"
  unfolding ReadBit_def read_bit_val by simp

lemma bond_step_eq:
  "0 \<le> fst j \<Longrightarrow> 0 \<le> snd j \<Longrightarrow>
   bond_step n J j d = Inr (d + bond_sign n J (nat (fst j)) (nat (snd j)))"
  by (simp add: bond_step_def ReadBit_bit bond_sign_def)

lemma foldE_bonds:
  "\<forall>j\<in>set js. 0 \<le> fst j \<and> 0 \<le> snd j \<Longrightarrow>
   foldE (bond_step n J) js d =
     Inr (d + sum_list (map (\<lambda>j. bond_sign n J (nat (fst j)) (nat (snd j))) js))"
  by (induction js arbitrary: d) (simp_all add: bond_step_eq add.assoc)

lemma ActingH_eq:
  "ActingH n L J g =
     Inr (map (\<lambda>i. (n XOR push_bit i 1, - J * g)) [0..<nat L]
          @ [(n, \<Sum>i = 0..<nat L. bond_sign n J i ((i + 1) mod nat L))])"
proof -
  have nn: "\<forall>j\<in>set (map (\<lambda>i. (i, (i + 1) mod L)) (py_range 0 L)). 0 \<le> fst j \<and> 0 \<le> snd j"
    by (auto simp add: py_range_0)
  have "nat ((int i + 1) mod L) = (i + 1) mod nat L" if "i < nat L" for i
    using that by (simp add: nat_mod_distrib nat_add_distrib)
  then have "map (\<lambda>i. bond_sign n J i (nat ((int i + 1) mod L))) [0..<nat L]
      = map (\<lambda>i. bond_sign n J i ((i + 1) mod nat L)) [0..<nat L]"
    by simp
  then have "sum_list (map (\<lambda>j. bond_sign n J (nat (fst j)) (nat (snd j)))
                 (map (\<lambda>i. (i, (i + 1) mod L)) (py_range 0 L)))
      = (\<Sum>i = 0..<nat L. bond_sign n J i ((i + 1) mod nat L))"
    by (simp add: py_range_0 comp_def interv_sum_list_conv_sum_set_nat)
  then show ?thesis
    unfolding ActingH_def Let_def foldE_bonds[OF nn]
    by (simp add: py_range_0 comp_def)
qed

lemma mapE_Inr: "(\<And>x. x \<in> set xs \<Longrightarrow> f x = Inr (h x)) \<Longrightarrow> mapE f xs = Inr (map h xs)"
  by (induction xs) simp_all

lemma Tlist_eq: "0 \<le> L \<Longrightarrow> Tlist n L = Inr (map (\<lambda>i. rotl (nat L) i n) [0..<Suc (nat L)])"
proof -
  assume L: "0 \<le> L"
  have r: "py_range 0 (L + 1) = map int [0..<Suc (nat L)]"
    using L by (simp add: py_range_0 nat_add_distrib)
  have "mapE (\<lambda>i. RotLBit n L i) (map int [0..<Suc (nat L)])
      = Inr (map (\<lambda>i. rotl (nat L) (nat i) n) (map int [0..<Suc (nat L)]))"
    by (rule mapE_Inr) (use L in \<open>auto simp add: RotLBit_rotl\<close>)
  then show ?thesis by (simp add: Tlist_def r comp_def)
qed

lemma minE_Min:
  assumes "xs \<noteq> []"
  shows "minE xs = Inr (Min (set xs))"
proof (cases xs)
  case Nil
  then show ?thesis using assms by simp
next
  case (Cons a list)
  have "fold min list a = Min (set (a # list))" by (rule Min.set_eq_fold[symmetric])
  then show ?thesis using Cons by (simp add: minE_def)
qed

section \<open>Rotations, periods and representatives\<close>

lemma statesI: "0 \<le> n \<Longrightarrow> n < 2 ^ L \<Longrightarrow> n \<in> states L"
  by (simp add: states_def)

lemma statesD: "n \<in> states L \<Longrightarrow> 0 \<le> n \<and> n < 2 ^ L"
  by (simp add: states_def)

lemma states_bit: "n \<in> states L \<Longrightarrow> bit n j \<Longrightarrow> j < L"
  using state_bit_bound by (auto simp add: states_def)

lemma states_eqI:
  assumes "x \<in> states L" "y \<in> states L" "\<And>j. j < L \<Longrightarrow> bit x j = bit y j"
  shows "x = y"
proof (rule bit_eqI)
  fix j show "bit x j = bit y j"
    using assms(3)[of j] states_bit[OF assms(1), of j] states_bit[OF assms(2), of j] by blast
qed

lemma cyc_bit:
  assumes "n \<in> states L" "0 < L"
  shows "bit (cyc L t n) j \<longleftrightarrow> j < L \<and> bit n (nat ((int j - t) mod int L))"
proof -
  define s where "s = nat (t mod int L)"
  have s: "s \<le> L" "int s = t mod int L" using assms(2) by (simp_all add: s_def less_imp_le nat_le_iff)
  have "int (j + (L - s)) = int j + (int L - int s)" using s(1) by simp
  then have "int ((j + (L - s)) mod L) = (int j + (int L - int s)) mod int L"
    by (simp only: zmod_int)
  also have "\<dots> = (int j - int s) mod int L"
    by (metis add_diff_eq diff_add_eq mod_add_self2)
  also have "\<dots> = (int j - t) mod int L"
    by (simp add: s(2) mod_diff_right_eq)
  finally have "(j + (L - s)) mod L = nat ((int j - t) mod int L)" by linarith
  then show ?thesis
    using rotl_bit[of n L s j] statesD[OF assms(1)] s(1) by (simp add: cyc_def s_def)
qed

lemma cyc_states:
  assumes "n \<in> states L" "0 < L"
  shows "cyc L t n \<in> states L"
proof -
  have "nat (t mod int L) \<le> L" using assms(2) by (simp add: less_imp_le nat_le_iff)
  then show ?thesis using rotl_range[of n L "nat (t mod int L)"] statesD[OF assms(1)]
    by (simp add: cyc_def states_def)
qed

lemma cyc_0 [simp]: "n \<in> states L \<Longrightarrow> cyc L 0 n = n"
  by (simp add: cyc_def rotl_0 states_def)

lemma cyc_mod [simp]: "cyc L (t mod int L) n = cyc L t n"
  by (simp add: cyc_def)

lemma cyc_L [simp]: "n \<in> states L \<Longrightarrow> cyc L (int L) n = n"
  by (simp add: cyc_def rotl_0 states_def)

lemma cyc_add:
  assumes "n \<in> states L" "0 < L"
  shows "cyc L a (cyc L b n) = cyc L (a + b) n"
proof (rule states_eqI[of _ L])
  show "cyc L a (cyc L b n) \<in> states L" by (intro cyc_states assms)
  show "cyc L (a + b) n \<in> states L" by (intro cyc_states assms)
  fix j assume j: "j < L"
  define q where "q = nat ((int j - a) mod int L)"
  have q: "q < L" "int q = (int j - a) mod int L" using assms(2) by (simp_all add: q_def nat_less_iff)
  have "(int q - b) mod int L = (int j - (a + b)) mod int L"
    by (simp add: q(2) mod_diff_left_eq algebra_simps)
  then show "bit (cyc L a (cyc L b n)) j = bit (cyc L (a + b) n) j"
    using j q(1) by (simp add: cyc_bit[OF cyc_states[OF assms] assms(2)] cyc_bit[OF assms] q_def[symmetric])
qed

lemma rotl_cyc:
  assumes "n \<in> states L" "s \<le> L"
  shows "rotl L s n = cyc L (int s) n"
proof (cases "s = L")
  case True
  then show ?thesis using assms by (simp add: rotl_L)
next
  case False
  then have "s < L" using assms(2) by simp
  then have "nat (int s mod int L) = s" by (simp add: nat_mod_distrib)
  then show ?thesis by (simp add: cyc_def)
qed

lemma states_take_bit: "n \<in> states L \<longleftrightarrow> take_bit L n = n"
  by (simp add: states_def take_bit_int_eq_self_iff)

lemma xor_states:
  assumes "n \<in> states L" "i < L"
  shows "n XOR push_bit i 1 \<in> states L"
  unfolding states_take_bit
  by (rule bit_eqI) (use assms states_bit[OF assms(1)] in \<open>auto simp add: bit_simps\<close>)

lemma shift_pos_iff:
  assumes "0 < L" "i < L" "j < L"
  shows "nat ((int j - t) mod int L) = i \<longleftrightarrow> j = nat ((int i + t) mod int L)"
proof
  assume "nat ((int j - t) mod int L) = i"
  moreover have "0 \<le> (int j - t) mod int L" using assms(1) by simp
  ultimately have "int i = (int j - t) mod int L" by linarith
  then have "(int i + t) mod int L = (int j - t + t) mod int L"
    by (simp add: mod_add_left_eq)
  then show "j = nat ((int i + t) mod int L)" using assms(3) by simp
next
  assume "j = nat ((int i + t) mod int L)"
  moreover have "0 \<le> (int i + t) mod int L" using assms(1) by simp
  ultimately have "int j = (int i + t) mod int L" by linarith
  then have "(int j - t) mod int L = (int i + t - t) mod int L"
    by (simp add: mod_diff_left_eq)
  then show "nat ((int j - t) mod int L) = i" using assms(2) by simp
qed

lemma cyc_xor_bit:
  assumes "n \<in> states L" "0 < L" "i < L"
  shows "cyc L t (n XOR push_bit i 1) = cyc L t n XOR push_bit (nat ((int i + t) mod int L)) 1"
proof (rule states_eqI[of _ L])
  have p: "nat ((int i + t) mod int L) < L" using assms(2) by (simp add: nat_less_iff)
  show "cyc L t (n XOR push_bit i 1) \<in> states L"
    by (intro cyc_states xor_states assms)
  show "cyc L t n XOR push_bit (nat ((int i + t) mod int L)) 1 \<in> states L"
    by (intro cyc_states xor_states assms p)
  fix j assume j: "j < L"
  show "bit (cyc L t (n XOR push_bit i 1)) j
      = bit (cyc L t n XOR push_bit (nat ((int i + t) mod int L)) 1) j"
  proof -
    define q where "q = nat ((int j - t) mod int L)"
    have "bit (cyc L t (n XOR push_bit i 1)) j = bit (n XOR push_bit i 1) q"
      using j by (simp only: cyc_bit[OF xor_states[OF assms(1,3)] assms(2)] q_def simp_thms)
    also have "\<dots> = (bit n q \<noteq> (q = i))"
      by (auto simp add: bit_simps)
    also have "\<dots> = (bit (cyc L t n) j \<noteq> (j = nat ((int i + t) mod int L)))"
      using j shift_pos_iff[OF assms(2,3) j, of t]
      by (simp add: cyc_bit[OF assms(1,2)] q_def)
    also have "\<dots> = bit (cyc L t n XOR push_bit (nat ((int i + t) mod int L)) 1) j"
      by (auto simp add: bit_simps)
    finally show ?thesis .
  qed
qed

lemma period_props:
  assumes "n \<in> states L" "0 < L"
  shows "0 < period L n" "period L n \<le> L" "cyc L (int (period L n)) n = n"
    "\<And>r. 0 < r \<Longrightarrow> r < period L n \<Longrightarrow> cyc L (int r) n \<noteq> n"
proof -
  have ex: "0 < L \<and> cyc L (int L) n = n" using assms by simp
  from LeastI[of "\<lambda>r. 0 < r \<and> cyc L (int r) n = n", OF ex]
  show "0 < period L n" "cyc L (int (period L n)) n = n" by (simp_all add: period_def)
  from Least_le[of "\<lambda>r. 0 < r \<and> cyc L (int r) n = n", OF ex]
  show "period L n \<le> L" by (simp add: period_def)
  fix r assume "0 < r" "r < period L n"
  then show "cyc L (int r) n \<noteq> n"
    using not_less_Least[of r "\<lambda>r. 0 < r \<and> cyc L (int r) n = n"] by (auto simp add: period_def)
qed

lemma stab_add:
  assumes "n \<in> states L" "0 < L" "cyc L a n = n" "cyc L b n = n"
  shows "cyc L (a + b) n = n"
  using cyc_add[OF assms(1,2), of a b] assms(3,4) by simp

lemma stab_neg:
  assumes "n \<in> states L" "0 < L" "cyc L a n = n"
  shows "cyc L (- a) n = n"
proof -
  have "cyc L (- a) (cyc L a n) = cyc L (- a + a) n" by (rule cyc_add[OF assms(1,2)])
  then show ?thesis using assms(1,3) by simp
qed

lemma stab_mult_nat:
  assumes "n \<in> states L" "0 < L" "cyc L a n = n"
  shows "cyc L (a * int q) n = n"
proof (induction q)
  case 0
  then show ?case using assms(1) by simp
next
  case (Suc q)
  have "a * int (Suc q) = a + a * int q" by (simp add: algebra_simps)
  then show ?case using stab_add[OF assms(1,2,3) Suc] by simp
qed

lemma stab_mult:
  assumes "n \<in> states L" "0 < L" "cyc L a n = n"
  shows "cyc L (a * q) n = n"
proof (cases "0 \<le> q")
  case True
  then show ?thesis using stab_mult_nat[OF assms, of "nat q"] by simp
next
  case False
  then have "a * q = - (a * int (nat (- q)))" by simp
  then show ?thesis using stab_neg[OF assms(1,2) stab_mult_nat[OF assms, of "nat (- q)"]] by simp
qed

lemma stab_iff:
  assumes "n \<in> states L" "0 < L"
  shows "cyc L t n = n \<longleftrightarrow> int (period L n) dvd t"
proof
  assume "int (period L n) dvd t"
  then obtain q where "t = int (period L n) * q" by (auto simp add: dvd_def)
  then show "cyc L t n = n"
    using stab_mult[OF assms period_props(3)[OF assms], of q] by simp
next
  assume t: "cyc L t n = n"
  define P where "P = int (period L n)"
  have P: "0 < P" using period_props(1)[OF assms] by (simp add: P_def)
  define r where "r = t mod P"
  have r: "0 \<le> r" "r < P" using P by (simp_all add: r_def)
  have req: "r = t + P * (- (t div P))" by (simp add: r_def minus_mult_div_eq_mod[symmetric] algebra_simps)
  have "cyc L (P * (- (t div P))) n = n"
    unfolding P_def by (rule stab_mult[OF assms period_props(3)[OF assms]])
  then have "cyc L (t + P * (- (t div P))) n = n" by (rule stab_add[OF assms t])
  then have "cyc L r n = n" by (simp only: req)
  then have "cyc L (int (nat r)) n = n" using r(1) by simp
  then have "\<not> (0 < nat r \<and> nat r < period L n)"
    using period_props(4)[OF assms, of "nat r"] by blast
  then have "r = 0" using r unfolding P_def by linarith
  then show "int (period L n) dvd t" by (simp add: r_def P_def mod_eq_0_iff_dvd)
qed

lemma period_dvd:
  assumes "n \<in> states L" "0 < L"
  shows "period L n dvd L"
  using stab_iff[OF assms, of "int L"] assms(1) by simp

lemma cyc_eq_iff:
  assumes "n \<in> states L" "0 < L"
  shows "cyc L a n = cyc L b n \<longleftrightarrow> int (period L n) dvd (a - b)"
proof -
  have "cyc L a n = cyc L b n \<longleftrightarrow> cyc L (a - b) n = n"
  proof
    assume "cyc L a n = cyc L b n"
    then have "cyc L (- b) (cyc L a n) = cyc L (- b) (cyc L b n)" by simp
    then show "cyc L (a - b) n = n" using assms(1) by (simp add: cyc_add[OF assms])
  next
    assume "cyc L (a - b) n = n"
    then have "cyc L b (cyc L (a - b) n) = cyc L b n" by simp
    then show "cyc L a n = cyc L b n" by (simp add: cyc_add[OF assms])
  qed
  then show ?thesis by (simp add: stab_iff[OF assms])
qed

lemma period_cyc:
  assumes "n \<in> states L" "0 < L"
  shows "period L (cyc L t n) = period L n"
proof -
  have "cyc L (int r) (cyc L t n) = cyc L t n \<longleftrightarrow> cyc L (int r) n = n" for r
    using cyc_eq_iff[OF assms, of "int r + t" t] stab_iff[OF assms, of "int r"]
    by (simp add: cyc_add[OF assms])
  then show ?thesis by (simp add: period_def)
qed

lemma orbit_eq: "0 < L \<Longrightarrow> orbit L n = range (\<lambda>t. cyc L t n)"
proof
  show "orbit L n \<subseteq> range (\<lambda>t. cyc L t n)" by (auto simp add: orbit_def)
  assume L: "0 < L"
  show "range (\<lambda>t. cyc L t n) \<subseteq> orbit L n"
  proof
    fix x assume "x \<in> range (\<lambda>t. cyc L t n)"
    then obtain t where "x = cyc L t n" by auto
    then have "x = cyc L (int (nat (t mod int L))) n" using L by simp
    moreover have "nat (t mod int L) < L" using L by (simp add: nat_less_iff)
    ultimately show "x \<in> orbit L n" unfolding orbit_def by blast
  qed
qed

lemma orbit_finite [simp]: "finite (orbit L n)"
  by (simp add: orbit_def)

lemma orbit_nonempty: "0 < L \<Longrightarrow> orbit L n \<noteq> {}"
  by (auto simp add: orbit_def)

lemma self_in_orbit: "n \<in> states L \<Longrightarrow> 0 < L \<Longrightarrow> n \<in> orbit L n"
  unfolding orbit_def by (rule image_eqI[of _ _ 0]) simp_all

lemma orbit_cyc:
  assumes "n \<in> states L" "0 < L"
  shows "orbit L (cyc L t n) = orbit L n"
proof -
  have "range (\<lambda>s. cyc L s (cyc L t n)) = range (\<lambda>s. cyc L s n)"
  proof (intro set_eqI iffI)
    fix x assume "x \<in> range (\<lambda>s. cyc L s (cyc L t n))"
    then show "x \<in> range (\<lambda>s. cyc L s n)" by (auto simp add: cyc_add[OF assms])
  next
    fix x assume "x \<in> range (\<lambda>s. cyc L s n)"
    then obtain s where "x = cyc L s n" by auto
    then have "x = cyc L (s - t) (cyc L t n)" by (simp add: cyc_add[OF assms])
    then show "x \<in> range (\<lambda>s. cyc L s (cyc L t n))" by blast
  qed
  then show ?thesis using assms(2) by (simp add: orbit_eq)
qed

lemma orbit_states: "n \<in> states L \<Longrightarrow> 0 < L \<Longrightarrow> orbit L n \<subseteq> states L"
  by (auto simp add: orbit_def cyc_states)

lemma rep_in_orbit: "0 < L \<Longrightarrow> rep L n \<in> orbit L n"
  unfolding rep_def by (rule Min_in) (simp_all add: orbit_nonempty)

lemma rep_le: "x \<in> orbit L n \<Longrightarrow> rep L n \<le> x"
  unfolding rep_def by (rule Min_le) simp_all

lemma rep_cyc: "n \<in> states L \<Longrightarrow> 0 < L \<Longrightarrow> rep L (cyc L t n) = rep L n"
  by (simp add: rep_def orbit_cyc)

lemma rep_states: "n \<in> states L \<Longrightarrow> 0 < L \<Longrightarrow> rep L n \<in> states L"
  using rep_in_orbit orbit_states by blast

lemma rep_rep: "n \<in> states L \<Longrightarrow> 0 < L \<Longrightarrow> rep L (rep L n) = rep L n"
  using rep_in_orbit[of L n] rep_cyc[of n L] by (auto simp add: orbit_eq)

lemma period_rep: "n \<in> states L \<Longrightarrow> 0 < L \<Longrightarrow> period L (rep L n) = period L n"
  using rep_in_orbit[of L n] period_cyc[of n L] by (auto simp add: orbit_eq)

lemma rdist_props:
  assumes "n \<in> states L" "0 < L"
  shows "rdist L n < L" "cyc L (int (rdist L n)) n = rep L n"
    "\<And>i. i < rdist L n \<Longrightarrow> cyc L (int i) n \<noteq> rep L n"
proof -
  from rep_in_orbit[OF assms(2), of n] obtain i where i: "i < L" "cyc L (int i) n = rep L n"
    by (auto simp add: orbit_def)
  from LeastI[of "\<lambda>i. cyc L (int i) n = rep L n", OF i(2)]
  show "cyc L (int (rdist L n)) n = rep L n" by (simp add: rdist_def)
  from Least_le[of "\<lambda>i. cyc L (int i) n = rep L n", OF i(2)] i(1)
  show "rdist L n < L" by (simp add: rdist_def)
  fix j assume "j < rdist L n"
  then show "cyc L (int j) n \<noteq> rep L n"
    using not_less_Least[of j "\<lambda>i. cyc L (int i) n = rep L n"] by (simp add: rdist_def)
qed

lemma rep_self_dist: "n \<in> states L \<Longrightarrow> 0 < L \<Longrightarrow> rep L n = n \<Longrightarrow> rdist L n = 0"
  unfolding rdist_def by (rule Least_equality) simp_all

lemma index_of_least:
  "i < length xs \<Longrightarrow> xs ! i = x \<Longrightarrow> (\<And>j. j < i \<Longrightarrow> xs ! j \<noteq> x) \<Longrightarrow> index_of xs x = Inr i"
proof (induction xs arbitrary: i)
  case Nil
  then show ?case by simp
next
  case (Cons y ys)
  show ?case
  proof (cases i)
    case 0
    then show ?thesis using Cons.prems by simp
  next
    case (Suc i')
    have "y \<noteq> x" using Cons.prems(3)[of 0] Suc by simp
    moreover have "index_of ys x = Inr i'"
    proof (rule Cons.IH)
      show "i' < length ys" using Cons.prems(1) Suc by simp
      show "ys ! i' = x" using Cons.prems(2) Suc by simp
      fix j assume "j < i'"
      then show "ys ! j \<noteq> x" using Cons.prems(3)[of "Suc j"] Suc by simp
    qed
    ultimately show ?thesis using Suc by simp
  qed
qed

lemma index_of_absent: "x \<notin> set xs \<Longrightarrow> index_of xs x = Inl ValueError"
  by (induction xs) auto

lemma index_of_sound: "index_of xs x = Inr i \<Longrightarrow> i < length xs \<and> xs ! i = x"
  by (induction xs arbitrary: i) (auto split: if_splits sum.splits)

lemma index_of_distinct: "distinct xs \<Longrightarrow> i < length xs \<Longrightarrow> index_of xs (xs ! i) = Inr i"
  by (rule index_of_least) (auto simp add: nth_eq_iff_index_eq)

lemma Tlist_cyc:
  assumes "n \<in> states (nat L)" "0 < L"
  shows "Tlist n L = Inr (map (\<lambda>i. cyc (nat L) (int i) n) [0..<Suc (nat L)])"
proof -
  have "map (\<lambda>i. rotl (nat L) i n) [0..<Suc (nat L)]
      = map (\<lambda>i. cyc (nat L) (int i) n) [0..<Suc (nat L)]"
    by (rule map_cong) (use assms in \<open>auto simp add: rotl_cyc\<close>)
  then show ?thesis using assms(2) by (simp only: Tlist_eq[of L n, OF less_imp_le])
qed

lemma set_rotations:
  assumes "n \<in> states L" "0 < L"
  shows "set (map (\<lambda>i. cyc L (int i) n) [0..<Suc L]) = orbit L n"
proof -
  have "cyc L (int L) n \<in> orbit L n" using assms self_in_orbit by simp
  then show ?thesis
    by (auto simp add: orbit_def lessThan_Suc atLeast0LessThan simp del: upt_Suc)
qed

lemma minE_rotations:
  assumes "n \<in> states L" "0 < L"
  shows "minE (map (\<lambda>i. cyc L (int i) n) [0..<Suc L]) = Inr (rep L n)"
proof -
  have "map (\<lambda>i. cyc L (int i) n) [0..<Suc L] \<noteq> []" by simp
  from minE_Min[OF this] show ?thesis
    by (simp only: set_rotations[OF assms] rep_def)
qed

lemma period_in_rotations:
  assumes "n \<in> states L" "0 < L"
  shows "period_in (map (\<lambda>i. cyc L (int i) n) [0..<Suc L]) n = Inr (period L n)"
proof -
  let ?T = "map (\<lambda>i. cyc L (int i) n) [0..<Suc L]"
  note pp = period_props[OF assms]
  have len: "length (drop 1 ?T) = L" by simp
  have nth: "drop 1 ?T ! i = cyc L (int (Suc i)) n" if "i < L" for i
    using that by (simp add: nth_append del: upt_Suc)
  have P: "period L n - 1 < L" "Suc (period L n - 1) = period L n" using pp(1,2) by simp_all
  have "index_of (drop 1 ?T) n = Inr (period L n - 1)"
  proof (rule index_of_least)
    show "period L n - 1 < length (drop 1 ?T)" using P(1) by (simp only: len)
    show "drop 1 ?T ! (period L n - 1) = n" using pp(3) by (simp only: nth[OF P(1)] P(2))
    fix j assume j: "j < period L n - 1"
    then have "cyc L (int (Suc j)) n \<noteq> n" using pp(4)[of "Suc j"] by simp
    moreover have "j < L" using j P(1) by simp
    ultimately show "drop 1 ?T ! j \<noteq> n" using nth[of j] by simp
  qed
  then show ?thesis using pp(1) by (simp add: period_in_def)
qed

lemma rdist_in_rotations:
  assumes "n \<in> states L" "0 < L"
  shows "index_of (map (\<lambda>i. cyc L (int i) n) [0..<Suc L]) (rep L n) = Inr (rdist L n)"
proof (rule index_of_least)
  note dp = rdist_props[OF assms]
  show "rdist L n < length (map (\<lambda>i. cyc L (int i) n) [0..<Suc L])" using dp(1) by simp
  show "map (\<lambda>i. cyc L (int i) n) [0..<Suc L] ! rdist L n = rep L n"
    using dp(1,2) by (simp add: nth_append del: upt_Suc)
  fix j assume j: "j < rdist L n"
  then show "map (\<lambda>i. cyc L (int i) n) [0..<Suc L] ! j \<noteq> rep L n"
    using dp(1) dp(3)[of j] by (simp del: upt_Suc)
qed

lemma basis_step_eq:
  assumes "n \<in> states (nat L)" "0 < L"
  shows "basis_step L k n acc = Inr (if in_sector (nat L) k n then acc @ [n] else acc)"
proof -
  have L: "0 < nat L" using assms(2) by simp
  show ?thesis
    unfolding basis_step_def Tlist_cyc[OF assms]
    using assms(2)
    by (simp add: minE_rotations[OF assms(1) L] period_in_rotations[OF assms(1) L] in_sector_def
        del: upt_Suc)
qed

lemma foldE_basis:
  assumes "set xs \<subseteq> states (nat L)" "0 < L"
  shows "foldE (basis_step L k) xs acc = Inr (acc @ filter (in_sector (nat L) k) xs)"
  using assms(1)
proof (induction xs arbitrary: acc)
  case Nil
  then show ?case by simp
next
  case (Cons x xs)
  then have "x \<in> states (nat L)" "set xs \<subseteq> states (nat L)" by simp_all
  then show ?case using Cons.IH by (simp add: basis_step_eq[OF _ assms(2)])
qed

lemma set_all_states: "set (all_states L) = states L"
proof -
  have "x \<in> int ` {0..<2 ^ L}" if "0 \<le> x" "x < 2 ^ L" for x
  proof (rule image_eqI[of _ _ "nat x"])
    show "x = int (nat x)" using that by simp
    have "nat x < nat (2 ^ L)" using that by (simp only: nat_less_eq_zless)
    then show "nat x \<in> {0..<2 ^ L}" by simp
  qed
  moreover have "int y < 2 ^ L" if "y < 2 ^ L" for y
    using that by (metis of_nat_less_iff of_nat_numeral of_nat_power)
  ultimately show ?thesis by (auto simp add: all_states_def states_def)
qed

lemma BuildBasisN_eq: "0 \<le> L \<Longrightarrow> BuildBasisN L = Inr (all_states (nat L))"
proof -
  have "(2::int) ^ nat L = int (2 ^ nat L)" by simp
  then show "0 \<le> L \<Longrightarrow> BuildBasisN L = Inr (all_states (nat L))"
    by (simp only: BuildBasisN_def py_range_nat all_states_def) simp
qed

lemma BuildBasisNk_eq: "0 < L \<Longrightarrow> BuildBasisNk L k = Inr (basis (nat L) k)"
  by (simp add: BuildBasisNk_def BuildBasisN_eq foldE_basis set_all_states basis_def)

lemma RotLBit_cyc:
  assumes "n \<in> states (nat L)" "0 \<le> i" "i \<le> L"
  shows "RotLBit n L i = Inr (cyc (nat L) i n)"
proof -
  have "rotl (nat L) (nat i) n = cyc (nat L) (int (nat i)) n"
    by (rule rotl_cyc) (use assms in simp_all)
  then show ?thesis using assms(2,3) by (simp add: RotLBit_rotl)
qed

lemma rep_self_iff:
  assumes "n \<in> states L" "0 < L"
  shows "rep L n = n \<longleftrightarrow> (\<forall>i<L. n \<le> cyc L (int i) n)"
proof
  assume "rep L n = n"
  then show "\<forall>i<L. n \<le> cyc L (int i) n"
    using rep_le[of _ L n] by (auto simp add: orbit_def)
next
  assume a: "\<forall>i<L. n \<le> cyc L (int i) n"
  have "rep L n \<le> n" using rep_le[OF self_in_orbit[OF assms]] .
  moreover have "n \<le> rep L n" using rep_in_orbit[OF assms(2), of n] a by (auto simp add: orbit_def)
  ultimately show "rep L n = n" by simp
qed

lemma period_unique:
  assumes "0 < R" "cyc L (int R) n = n" "\<And>r. 0 < r \<Longrightarrow> r < R \<Longrightarrow> cyc L (int r) n \<noteq> n"
  shows "period L n = R"
  unfolding period_def
proof (rule Least_equality)
  show "0 < R \<and> cyc L (int R) n = n" using assms(1,2) by simp
  fix y assume "0 < y \<and> cyc L (int y) n = n"
  then show "R \<le> y" using assms(3)[of y] by (meson not_le)
qed

lemma sorted_all_states: "sorted_wrt (<) (all_states L)"
  by (simp add: all_states_def sorted_wrt_map)

lemma sorted_basis: "sorted_wrt (<) (basis L k)"
  unfolding basis_def by (rule sorted_wrt_filter[OF sorted_all_states])

lemma set_basis: "set (basis L k) = {n \<in> states L. in_sector L k n}"
  by (auto simp add: basis_def set_all_states)

lemma RotLBit_period:
  assumes "n \<in> states (nat L)" "0 < L"
  shows "int (period (nat L) n) \<le> L" "RotLBit n L (int (period (nat L) n)) = Inr n"
proof -
  have L: "0 < nat L" using assms(2) by simp
  note pp = period_props[OF assms(1) L]
  show RL: "int (period (nat L) n) \<le> L" using pp(2) assms(2) by simp
  show "RotLBit n L (int (period (nat L) n)) = Inr n"
    using RotLBit_cyc[OF assms(1) _ RL] pp(3) by simp
qed

lemma RotLBit_below_period:
  assumes "n \<in> states (nat L)" "0 < L" "1 \<le> r" "r < int (period (nat L) n)"
  shows "RotLBit n L r \<noteq> Inr n"
proof -
  have L: "0 < nat L" using assms(2) by simp
  have "0 < nat r" "nat r < period (nat L) n" using assms(3,4) by simp_all
  then have "cyc (nat L) (int (nat r)) n \<noteq> n" by (rule period_props(4)[OF assms(1) L])
  then have "cyc (nat L) r n \<noteq> n" using assms(3) by simp
  moreover have "RotLBit n L r = Inr (cyc (nat L) r n)"
    by (rule RotLBit_cyc[OF assms(1)]) (use assms(3,4) RotLBit_period(1)[OF assms(1,2)] in simp_all)
  ultimately show ?thesis by simp
qed

lemma RotLBit_L:
  assumes "n \<in> states (nat L)" "0 < L"
  shows "RotLBit n L L = Inr n"
proof -
  have "cyc (nat L) (int (nat L)) n = n" using assms(1) by (rule cyc_L)
  then have "cyc (nat L) L n = n" using assms(2) by simp
  then show ?thesis using RotLBit_cyc[OF assms(1), of L] assms(2) by simp
qed

lemma min_cond_iff:
  assumes "n \<in> states (nat L)" "0 < L"
  shows "(\<forall>i. 0 \<le> i \<and> i < L \<longrightarrow> (\<exists>x. RotLBit n L i = Inr x \<and> n \<le> x))
     \<longleftrightarrow> rep (nat L) n = n"
proof -
  have L: "0 < nat L" using assms(2) by simp
  have "(\<exists>x. RotLBit n L i = Inr x \<and> n \<le> x) \<longleftrightarrow> n \<le> cyc (nat L) i n"
    if "0 \<le> i \<and> i < L" for i
    using RotLBit_cyc[OF assms(1), of i] that by simp
  then have "(\<forall>i. 0 \<le> i \<and> i < L \<longrightarrow> (\<exists>x. RotLBit n L i = Inr x \<and> n \<le> x))
      \<longleftrightarrow> (\<forall>i. 0 \<le> i \<and> i < L \<longrightarrow> n \<le> cyc (nat L) i n)"
    by blast
  also have "\<dots> \<longleftrightarrow> (\<forall>i<nat L. n \<le> cyc (nat L) (int i) n)"
  proof (intro iffI allI impI)
    fix i assume "\<forall>i. 0 \<le> i \<and> i < L \<longrightarrow> n \<le> cyc (nat L) i n" "i < nat L"
    then show "n \<le> cyc (nat L) (int i) n" by (simp add: nat_less_iff)
  next
    fix i assume a: "\<forall>i<nat L. n \<le> cyc (nat L) (int i) n" and i: "0 \<le> i \<and> i < L"
    then have "nat i < nat L" by simp
    then have "n \<le> cyc (nat L) (int (nat i)) n" using a by blast
    then show "n \<le> cyc (nat L) i n" using i by simp
  qed
  finally show ?thesis by (simp only: rep_self_iff[OF assms(1) L])
qed

lemma per_cond_iff:
  assumes "n \<in> states (nat L)" "0 < L"
  shows "(\<exists>R. 1 \<le> R \<and> R \<le> L \<and> RotLBit n L R = Inr n
                 \<and> (\<forall>r. 1 \<le> r \<and> r < R \<longrightarrow> RotLBit n L r \<noteq> Inr n)
                 \<and> (k * R) mod L = 0)
     \<longleftrightarrow> (k * int (period (nat L) n)) mod L = 0" (is "?per \<longleftrightarrow> ?k")
proof
  have L: "0 < nat L" using assms(2) by simp
  assume ?per
  then obtain R where R: "1 \<le> R" "R \<le> L" "RotLBit n L R = Inr n"
    "\<forall>r. 1 \<le> r \<and> r < R \<longrightarrow> RotLBit n L r \<noteq> Inr n" "(k * R) mod L = 0" by (elim exE conjE)
  have rot: "RotLBit n L i = Inr (cyc (nat L) i n)" if "0 \<le> i" "i \<le> L" for i
    using RotLBit_cyc[OF assms(1) that] .
  have "period (nat L) n = nat R"
  proof (rule period_unique)
    show "0 < nat R" using R(1) by simp
    have "RotLBit n L R = Inr (cyc (nat L) R n)" by (rule rot) (use R(1,2) in simp_all)
    then have "Inr (cyc (nat L) R n) = (Inr n :: py_error + int)" by (simp only: R(3))
    then have "cyc (nat L) R n = n" by (simp only: sum.inject)
    moreover have "int (nat R) = R" using R(1) by simp
    ultimately show "cyc (nat L) (int (nat R)) n = n" by (simp only:)
    fix r assume r: "0 < r" "r < nat R"
    then have "1 \<le> int r \<and> int r < R" by linarith
    then have "RotLBit n L (int r) \<noteq> Inr n" using R(4) by blast
    moreover have "RotLBit n L (int r) = Inr (cyc (nat L) (int r) n)"
      by (rule rot) (use r R(2) in simp_all)
    ultimately show "cyc (nat L) (int r) n \<noteq> n" by simp
  qed
  then have "int (period (nat L) n) = R" using R(1) by simp
  then show ?k using R(5) by (simp only:)
next
  assume k: ?k
  let ?R = "int (period (nat L) n)"
  have L: "0 < nat L" using assms(2) by simp
  have 1: "1 \<le> ?R" using period_props(1)[OF assms(1) L] by simp
  have 2: "\<forall>r. 1 \<le> r \<and> r < ?R \<longrightarrow> RotLBit n L r \<noteq> Inr n"
    using RotLBit_below_period[OF assms] by blast
  show ?per
    apply (rule exI[of _ ?R])
    apply (intro conjI 1 2 k RotLBit_period[OF assms])
    done
qed

section \<open>The accumulation loop of the sector matrix\<close>

lemma coeff_amp: "L \<noteq> 0 \<Longrightarrow> coeff h k d L Rn Rm = Inr (amp L k h d Rn Rm)"
  by (simp add: coeff_def amp_def)

lemma hnk_inv_init: "hnk_inv hnk_init"
  by (simp add: hnk_inv_def hnk_init_def)

lemma entry_of_init: "entry_of hnk_init r c = 0"
  by (simp add: entry_of_def triples_def hnk_init_def)

lemma sum_list_upd:
  fixes xs :: "complex list"
  shows "p < length xs \<Longrightarrow> sum_list (xs[p := y]) = sum_list xs - xs ! p + y"
proof (induction xs arbitrary: p)
  case Nil
  then show ?case by simp
next
  case (Cons x xs)
  then show ?case by (cases p) simp_all
qed

lemma store_new:
  assumes "hnk_inv s" "pos s (a, b) = None"
  shows "\<exists>s'. store a b v s = Inr s' \<and> hnk_inv s'
     \<and> (\<forall>r c. entry_of s' r c = entry_of s r c + (if r = b \<and> c = a then v else 0))"
proof -
  let ?s' = "s\<lparr>HNk_col := HNk_col s @ [a], HNk_row := HNk_row s @ [b],
                  HNk_val := HNk_val s @ [v],
                  pos := (pos s)((a, b) \<mapsto> length (HNk_col s))\<rparr>"
  have len: "length (HNk_row s) = length (HNk_col s)" "length (HNk_val s) = length (HNk_col s)"
    using assms(1) by (simp_all add: hnk_inv_def)
  have old: "pos s (a', b') = Some p \<longleftrightarrow>
      p < length (HNk_col s) \<and> HNk_col s ! p = a' \<and> HNk_row s ! p = b'" for a' b' p
    using assms(1) by (simp add: hnk_inv_def)
  have 1: "store a b v s = Inr ?s'" using assms(2) by (simp add: store_def)
  have fresh: "\<not> (p < length (HNk_col s) \<and> HNk_col s ! p = a \<and> HNk_row s ! p = b)" for p
    using old[of a b p] assms(2) by simp
  have 2: "hnk_inv ?s'"
    unfolding hnk_inv_def
  proof (intro conjI allI)
    show "length (HNk_row ?s') = length (HNk_col ?s')" using len by simp
    show "length (HNk_val ?s') = length (HNk_col ?s')" using len by simp
    fix a' b' p
    show "pos ?s' (a', b') = Some p \<longleftrightarrow>
        p < length (HNk_col ?s') \<and> HNk_col ?s' ! p = a' \<and> HNk_row ?s' ! p = b'"
    proof (cases "(a', b') = (a, b)")
      case True
      then show ?thesis using fresh[of p] len
        by (auto simp add: nth_append less_Suc_eq)
    next
      case False
      then show ?thesis using old[of a' b' p] len
        by (auto simp add: nth_append less_Suc_eq)
    qed
  qed
  have "triples ?s' = triples s @ [(a, b, v)]"
    using len by (simp add: triples_def)
  then have 3: "entry_of ?s' r c = entry_of s r c + (if r = b \<and> c = a then v else 0)" for r c
    by (simp add: entry_of_def pick_def)
  show ?thesis using 1 2 3 by blast
qed

lemma store_old:
  assumes "hnk_inv s" "pos s (a, b) = Some p"
  shows "\<exists>s'. store a b v s = Inr s' \<and> hnk_inv s'
     \<and> (\<forall>r c. entry_of s' r c = entry_of s r c + (if r = b \<and> c = a then v else 0))"
proof -
  let ?s' = "s\<lparr>HNk_val := (HNk_val s)[p := HNk_val s ! p + v]\<rparr>"
  have len: "length (HNk_row s) = length (HNk_col s)" "length (HNk_val s) = length (HNk_col s)"
    using assms(1) by (simp_all add: hnk_inv_def)
  have p: "p < length (HNk_col s)" "HNk_col s ! p = a" "HNk_row s ! p = b"
    using assms by (simp_all add: hnk_inv_def)
  have 1: "store a b v s = Inr ?s'" using assms(2) p(1) len by (simp add: store_def)
  have 2: "hnk_inv ?s'" using assms(1) by (simp add: hnk_inv_def)
  have pt: "p < length (triples s)" "triples s ! p = (a, b, HNk_val s ! p)"
    using p len by (simp_all add: triples_def)
  have "triples ?s' = (triples s)[p := (a, b, HNk_val s ! p + v)]"
    unfolding triples_def
    by (rule nth_equalityI) (use p len in \<open>auto simp add: nth_list_update\<close>)
  then have "map (pick r c) (triples ?s')
      = (map (pick r c) (triples s))[p := pick r c (a, b, HNk_val s ! p + v)]" for r c
    by (simp add: map_update)
  then have "entry_of ?s' r c
      = entry_of s r c - pick r c (triples s ! p) + pick r c (a, b, HNk_val s ! p + v)" for r c
    using pt(1) by (simp add: entry_of_def sum_list_upd)
  then have 3: "entry_of ?s' r c = entry_of s r c + (if r = b \<and> c = a then v else 0)" for r c
    by (simp add: pt(2) pick_def)
  show ?thesis using 1 2 3 by blast
qed

lemma store_step:
  assumes "hnk_inv s"
  shows "\<exists>s'. store a b v s = Inr s' \<and> hnk_inv s'
     \<and> (\<forall>r c. entry_of s' r c = entry_of s r c + (if r = b \<and> c = a then v else 0))"
  using store_new[OF assms] store_old[OF assms] by (cases "pos s (a, b)") auto

lemma ActingH_acts: "ActingH n L J g = Inr (acts (nat L) J g n)"
  by (simp add: ActingH_eq acts_def diag_sum_def)

lemma xor_states_pow: "n \<in> states L \<Longrightarrow> i < L \<Longrightarrow> n XOR 2 ^ i \<in> states L"
  using xor_states[of n L i] by simp

lemma acts_states:
  assumes "n \<in> states L"
  shows "\<forall>mh\<in>set (acts L J g n). fst mh \<in> states L"
  using assms by (auto simp add: acts_def xor_states_pow)

lemma hnk_inner_eq:
  assumes "m \<in> states (nat L)" "n \<in> states (nat L)" "0 < L"
  shows "hnk_inner L k B n b (m, h) s =
     (if rep (nat L) m \<in> set B
      then bindE (index_of B (rep (nat L) m))
             (\<lambda>a. store a b (amp L k h (rdist (nat L) m) (period (nat L) n) (period (nat L) m)) s)
      else Inr s)"
proof -
  have L: "0 < nat L" "L \<noteq> 0" using assms(3) by simp_all
  show ?thesis
    unfolding hnk_inner_def prod.case Tlist_cyc[OF assms(1,3)] Tlist_cyc[OF assms(2,3)] bindE_Inr
      minE_rotations[OF assms(1) L(1)] period_in_rotations[OF assms(1) L(1)]
      period_in_rotations[OF assms(2) L(1)] rdist_in_rotations[OF assms(1) L(1)]
      coeff_amp[OF L(2)] store_def
    by (rule refl)
qed

lemma nth_distinct_iff:
  "distinct xs \<Longrightarrow> i < length xs \<Longrightarrow> (j < length xs \<and> xs ! j = xs ! i) \<longleftrightarrow> j = i"
  by (auto simp add: nth_eq_iff_index_eq)

lemma hnk_inner_step:
  assumes "hnk_inv s" "m \<in> states (nat L)" "n \<in> states (nat L)" "0 < L"
    "distinct B" "b < length B" "B ! b = n"
  shows "\<exists>s'. hnk_inner L k B n b (m, h) s = Inr s' \<and> hnk_inv s'
     \<and> (\<forall>r c. entry_of s' r c = entry_of s r c + contrib (nat L) k B n (m, h) r c)"
proof (cases "rep (nat L) m \<in> set B")
  case False
  have "\<not> (c < length B \<and> B ! c = rep (nat L) m)" for c
  proof
    assume "c < length B \<and> B ! c = rep (nat L) m"
    then have "rep (nat L) m \<in> set B" using nth_mem[of c B] by metis
    then show False using False by simp
  qed
  then have "contrib (nat L) k B n (m, h) r c = 0" for r c
    unfolding contrib_def prod.case by (simp only: simp_thms if_False)
  then show ?thesis using False assms(1) by (simp add: hnk_inner_eq[OF assms(2,3,4)])
next
  case True
  then obtain a where a: "a < length B" "B ! a = rep (nat L) m"
    by (auto simp add: in_set_conv_nth)
  have ia: "index_of B (rep (nat L) m) = Inr a"
    using index_of_distinct[OF assms(5) a(1)] a(2) by simp
  let ?v = "amp L k h (rdist (nat L) m) (period (nat L) n) (period (nat L) m)"
  from store_step[OF assms(1), of a b ?v] obtain s' where
    s': "store a b ?v s = Inr s'" "hnk_inv s'"
      "\<forall>r c. entry_of s' r c = entry_of s r c + (if r = b \<and> c = a then ?v else 0)"
    by blast
  have rb: "(r < length B \<and> B ! r = n) \<longleftrightarrow> r = b" for r
    using nth_distinct_iff[OF assms(5,6), of r] assms(7) by simp
  have ca: "(c < length B \<and> B ! c = rep (nat L) m) \<longleftrightarrow> c = a" for c
    using nth_distinct_iff[OF assms(5) a(1), of c] a(2) by simp
  have "int (nat L) = L" using assms(4) by simp
  then have "contrib (nat L) k B n (m, h) r c = (if r = b \<and> c = a then ?v else 0)" for r c
    using rb[of r] ca[of c] by (auto simp add: contrib_def)
  then have "\<forall>r c. entry_of s' r c = entry_of s r c + contrib (nat L) k B n (m, h) r c"
    using s'(3) by simp
  moreover have "hnk_inner L k B n b (m, h) s = Inr s'"
    using True ia s'(1) by (simp add: hnk_inner_eq[OF assms(2,3,4)])
  ultimately show ?thesis using s'(2) by blast
qed

lemma foldE_inner:
  assumes "n \<in> states (nat L)" "0 < L" "distinct B" "b < length B" "B ! b = n"
  shows "hnk_inv s \<Longrightarrow> \<forall>mh\<in>set out. fst mh \<in> states (nat L) \<Longrightarrow>
     \<exists>s'. foldE (hnk_inner L k B n b) out s = Inr s' \<and> hnk_inv s'
       \<and> (\<forall>r c. entry_of s' r c
             = entry_of s r c + sum_list (map (\<lambda>mh. contrib (nat L) k B n mh r c) out))"
proof (induction out arbitrary: s)
  case Nil
  then show ?case by simp
next
  case (Cons mh out)
  obtain m h where mh: "mh = (m, h)" by (cases mh)
  have m: "m \<in> states (nat L)" using Cons.prems(2) mh by simp
  from hnk_inner_step[OF Cons.prems(1) m assms, of k h] obtain s1 where
    s1: "hnk_inner L k B n b (m, h) s = Inr s1" "hnk_inv s1"
      "\<forall>r c. entry_of s1 r c = entry_of s r c + contrib (nat L) k B n (m, h) r c"
    by blast
  have rest: "\<forall>mh\<in>set out. fst mh \<in> states (nat L)" using Cons.prems(2) by simp
  from Cons.IH[OF s1(2) rest] obtain s2 where
    s2: "foldE (hnk_inner L k B n b) out s1 = Inr s2" "hnk_inv s2"
      "\<forall>r c. entry_of s2 r c
          = entry_of s1 r c + sum_list (map (\<lambda>mh. contrib (nat L) k B n mh r c) out)"
    by blast
  have "foldE (hnk_inner L k B n b) (mh # out) s = Inr s2"
    using s1(1) s2(1) mh by simp
  moreover have "\<forall>r c. entry_of s2 r c
      = entry_of s r c + sum_list (map (\<lambda>mh. contrib (nat L) k B n mh r c) (mh # out))"
    using s1(3) s2(3) mh by (simp add: add.assoc)
  ultimately show ?case using s2(2) by blast
qed

lemma hnk_outer_step:
  assumes "hnk_inv s" "n \<in> states (nat L)" "0 < L" "distinct B" "n \<in> set B"
  shows "\<exists>s'. hnk_outer L k J g B n s = Inr s' \<and> hnk_inv s'
     \<and> (\<forall>r c. entry_of s' r c = entry_of s r c + row_contrib (nat L) k J g B n r c)"
proof -
  from assms(5) obtain b where b: "b < length B" "B ! b = n"
    by (auto simp add: in_set_conv_nth)
  have ib: "index_of B n = Inr b" using index_of_distinct[OF assms(4) b(1)] b(2) by simp
  have st: "\<forall>mh\<in>set (acts (nat L) J g n). fst mh \<in> states (nat L)"
    by (rule acts_states[OF assms(2)])
  from foldE_inner[OF assms(2,3,4) b assms(1) st, of k] show ?thesis
    by (simp add: hnk_outer_def ib ActingH_acts row_contrib_def)
qed

lemma foldE_outer:
  assumes "0 < L" "distinct B" "set B \<subseteq> states (nat L)"
  shows "hnk_inv s \<Longrightarrow> set ns \<subseteq> set B \<Longrightarrow>
     \<exists>s'. foldE (hnk_outer L k J g B) ns s = Inr s' \<and> hnk_inv s'
       \<and> (\<forall>r c. entry_of s' r c
             = entry_of s r c + sum_list (map (\<lambda>n. row_contrib (nat L) k J g B n r c) ns))"
proof (induction ns arbitrary: s)
  case Nil
  then show ?case by simp
next
  case (Cons n ns)
  have n: "n \<in> set B" "n \<in> states (nat L)" using Cons.prems(2) assms(3) by auto
  from hnk_outer_step[OF Cons.prems(1) n(2) assms(1,2) n(1), of k J g] obtain s1 where
    s1: "hnk_outer L k J g B n s = Inr s1" "hnk_inv s1"
      "\<forall>r c. entry_of s1 r c = entry_of s r c + row_contrib (nat L) k J g B n r c"
    by blast
  have rest: "set ns \<subseteq> set B" using Cons.prems(2) by simp
  from Cons.IH[OF s1(2) rest] obtain s2 where
    s2: "foldE (hnk_outer L k J g B) ns s1 = Inr s2" "hnk_inv s2"
      "\<forall>r c. entry_of s2 r c
          = entry_of s1 r c + sum_list (map (\<lambda>n. row_contrib (nat L) k J g B n r c) ns)"
    by blast
  have "foldE (hnk_outer L k J g B) (n # ns) s = Inr s2" using s1(1) s2(1) by simp
  moreover have "\<forall>r c. entry_of s2 r c
      = entry_of s r c + sum_list (map (\<lambda>n. row_contrib (nat L) k J g B n r c) (n # ns))"
    using s1(3) s2(3) by (simp add: add.assoc)
  ultimately show ?case using s2(2) by blast
qed

lemma distinct_basis: "distinct (basis L k)"
  using sorted_basis[of L k] by (simp add: strict_sorted_iff)

lemma basis_states: "set (basis L k) \<subseteq> states L"
  by (auto simp add: set_basis)

lemma entry_entry_of:
  "entry (HNk_col s, HNk_row s, HNk_val s, x, y) r c = entry_of s r c"
proof -
  have "(\<lambda>(c', r', v). if r' = r \<and> c' = c then v else 0) = pick r c"
    by (auto simp add: pick_def fun_eq_iff)
  then show ?thesis by (simp add: entry_def entry_of_def triples_def)
qed

lemma row_contrib_guard:
  "row_contrib L k J g B n r c
     = (if r < length B \<and> B ! r = n then row_contrib L k J g B (B ! r) r c else 0)"
  by (auto simp add: row_contrib_def contrib_def case_prod_beta)

lemma sum_rows:
  assumes "distinct B"
  shows "sum_list (map (\<lambda>n. row_contrib L k J g B n r c) B)
     = (if r < length B then row_contrib L k J g B (B ! r) r c else 0)"
proof -
  have "sum_list (map (\<lambda>n. row_contrib L k J g B n r c) B)
      = (\<Sum>n\<in>set B. row_contrib L k J g B n r c)"
    by (rule sum_list_distinct_conv_sum_set[OF assms])
  also have "\<dots> = (\<Sum>n\<in>set B. if r < length B \<and> B ! r = n
                         then row_contrib L k J g B (B ! r) r c else 0)"
    by (rule sum.cong[OF refl]) (rule row_contrib_guard)
  also have "\<dots> = (if r < length B then row_contrib L k J g B (B ! r) r c else 0)"
  proof (cases "r < length B")
    case True
    then have "(\<Sum>n\<in>set B. if r < length B \<and> B ! r = n
                         then row_contrib L k J g B (B ! r) r c else 0)
        = (\<Sum>n\<in>set B. if B ! r = n then row_contrib L k J g B (B ! r) r c else 0)"
      by simp
    also have "\<dots> = row_contrib L k J g B (B ! r) r c"
      using True by simp
    finally show ?thesis using True by simp
  next
    case False
    then show ?thesis by simp
  qed
  finally show ?thesis .
qed

lemma store_dom: "store a b v s = Inr s' \<Longrightarrow> dom (pos s') = insert (a, b) (dom (pos s))"
  by (auto simp add: store_def split: option.splits if_splits)

lemma hnk_inner_dom:
  assumes "m \<in> states (nat L)" "n \<in> states (nat L)" "0 < L"
    "distinct B" "b < length B" "B ! b = n" "hnk_inner L k B n b (m, h) s = Inr s'"
  shows "dom (pos s') = dom (pos s) \<union> ckey (nat L) B n (m, h)"
proof (cases "rep (nat L) m \<in> set B")
  case False
  have "\<not> (c < length B \<and> B ! c = rep (nat L) m)" for c
  proof
    assume "c < length B \<and> B ! c = rep (nat L) m"
    then have "rep (nat L) m \<in> set B" using nth_mem[of c B] by metis
    then show False using False by simp
  qed
  then have "ckey (nat L) B n (m, h) = {}" by (auto simp add: ckey_def)
  moreover have "s' = s" using assms(7) False by (simp add: hnk_inner_eq[OF assms(1,2,3)])
  ultimately show ?thesis by simp
next
  case True
  then obtain a where a: "a < length B" "B ! a = rep (nat L) m"
    by (auto simp add: in_set_conv_nth)
  have ia: "index_of B (rep (nat L) m) = Inr a"
    using index_of_distinct[OF assms(4) a(1)] a(2) by simp
  have rb: "(r < length B \<and> B ! r = n) \<longleftrightarrow> r = b" for r
    using nth_distinct_iff[OF assms(4,5), of r] assms(6) by simp
  have ca: "(c < length B \<and> B ! c = rep (nat L) m) \<longleftrightarrow> c = a" for c
    using nth_distinct_iff[OF assms(4) a(1), of c] a(2) by simp
  have "ckey (nat L) B n (m, h) = {(a, b)}"
    using rb ca by (auto simp add: ckey_def)
  moreover have "dom (pos s') = insert (a, b) (dom (pos s))"
    using assms(7) True ia by (simp add: hnk_inner_eq[OF assms(1,2,3)] store_dom)
  ultimately show ?thesis by simp
qed

lemma foldE_inner_dom:
  assumes "n \<in> states (nat L)" "0 < L" "distinct B" "b < length B" "B ! b = n"
  shows "\<forall>mh\<in>set out. fst mh \<in> states (nat L) \<Longrightarrow>
     foldE (hnk_inner L k B n b) out s = Inr s' \<Longrightarrow>
     dom (pos s') = dom (pos s) \<union> (\<Union>mh\<in>set out. ckey (nat L) B n mh)"
proof (induction out arbitrary: s)
  case Nil
  then show ?case by simp
next
  case (Cons mh out)
  obtain m h where mh: "mh = (m, h)" by (cases mh)
  have m: "m \<in> states (nat L)" using Cons.prems(1) mh by simp
  from Cons.prems(2) obtain s1 where
    s1: "hnk_inner L k B n b (m, h) s = Inr s1" "foldE (hnk_inner L k B n b) out s1 = Inr s'"
    by (cases "hnk_inner L k B n b (m, h) s") (simp_all add: mh)
  have "dom (pos s1) = dom (pos s) \<union> ckey (nat L) B n (m, h)"
    by (rule hnk_inner_dom[OF m assms s1(1)])
  moreover have "dom (pos s') = dom (pos s1) \<union> (\<Union>mh\<in>set out. ckey (nat L) B n mh)"
    by (rule Cons.IH[OF _ s1(2)]) (use Cons.prems(1) in simp)
  ultimately show ?case by (auto simp add: mh)
qed

lemma hnk_outer_dom:
  assumes "n \<in> states (nat L)" "0 < L" "distinct B" "n \<in> set B"
    "hnk_outer L k J g B n s = Inr s'"
  shows "dom (pos s') = dom (pos s) \<union> row_keys (nat L) J g B n"
proof -
  from assms(4) obtain b where b: "b < length B" "B ! b = n"
    by (auto simp add: in_set_conv_nth)
  have ib: "index_of B n = Inr b" using index_of_distinct[OF assms(3) b(1)] b(2) by simp
  have st: "\<forall>mh\<in>set (acts (nat L) J g n). fst mh \<in> states (nat L)"
    by (rule acts_states[OF assms(1)])
  have "foldE (hnk_inner L k B n b) (acts (nat L) J g n) s = Inr s'"
    using assms(5) by (simp add: hnk_outer_def ib ActingH_acts)
  from foldE_inner_dom[OF assms(1,2,3) b st this] show ?thesis
    by (simp add: row_keys_def)
qed

lemma foldE_outer_dom:
  assumes "0 < L" "distinct B" "set B \<subseteq> states (nat L)"
  shows "set ns \<subseteq> set B \<Longrightarrow> foldE (hnk_outer L k J g B) ns s = Inr s' \<Longrightarrow>
     dom (pos s') = dom (pos s) \<union> (\<Union>n\<in>set ns. row_keys (nat L) J g B n)"
proof (induction ns arbitrary: s)
  case Nil
  then show ?case by simp
next
  case (Cons n ns)
  have n: "n \<in> set B" "n \<in> states (nat L)" using Cons.prems(1) assms(3) by auto
  from Cons.prems(2) obtain s1 where
    s1: "hnk_outer L k J g B n s = Inr s1" "foldE (hnk_outer L k J g B) ns s1 = Inr s'"
    by (cases "hnk_outer L k J g B n s") simp_all
  have "dom (pos s1) = dom (pos s) \<union> row_keys (nat L) J g B n"
    by (rule hnk_outer_dom[OF n(2) assms(1,2) n(1) s1(1)])
  moreover have "dom (pos s') = dom (pos s1) \<union> (\<Union>n\<in>set ns. row_keys (nat L) J g B n)"
    by (rule Cons.IH[OF _ s1(2)]) (use Cons.prems(1) in simp)
  ultimately show ?case by auto
qed

lemma inv_dom_zip:
  assumes "hnk_inv s"
  shows "set (zip (HNk_col s) (HNk_row s)) = dom (pos s)"
proof -
  have len: "length (HNk_row s) = length (HNk_col s)" using assms by (simp add: hnk_inv_def)
  have "(a, b) \<in> set (zip (HNk_col s) (HNk_row s)) \<longleftrightarrow> (a, b) \<in> dom (pos s)" for a b
  proof -
    have "(a, b) \<in> set (zip (HNk_col s) (HNk_row s))
        \<longleftrightarrow> (\<exists>p < length (HNk_col s). HNk_col s ! p = a \<and> HNk_row s ! p = b)"
      using len by (auto simp add: in_set_conv_nth)
    also have "\<dots> \<longleftrightarrow> (\<exists>p. pos s (a, b) = Some p)"
      using assms by (simp add: hnk_inv_def)
    finally show ?thesis by auto
  qed
  then show ?thesis by auto
qed







lemma row_contrib_split:
  "row_contrib L k J g B n r c
     = (\<Sum>i = 0..<L. contrib L k B n (n XOR push_bit i 1, - J * g) r c)
       + contrib L k B n (n, diag_sum L J n) r c"
  by (simp add: row_contrib_def acts_def comp_def interv_sum_list_conv_sum_set_nat
      del: push_bit_of_1)

lemma amp_self: "0 < R \<Longrightarrow> amp L k h 0 R R = of_real h"
  by (simp add: amp_def)


lemma contrib_diag:
  assumes "n \<in> states L" "0 < L" "rep L n = n" "distinct B" "r < length B" "B ! r = n"
  shows "contrib L k B n (n, h) r c = (if c = r then of_real h else 0)"
proof -
  have "(c < length B \<and> B ! c = n) \<longleftrightarrow> c = r"
    using nth_distinct_iff[OF assms(4,5), of c] assms(6) by simp
  moreover have "amp (int L) k h (rdist L n) (period L n) (period L n) = of_real h"
    using rep_self_dist[OF assms(1,2,3)] period_props(1)[OF assms(1,2)] by (simp add: amp_self)
  ultimately show ?thesis using assms(3,5,6) by (simp add: contrib_def)
qed


lemma basis_nth:
  assumes "r < length (basis L k)"
  shows "basis L k ! r \<in> states L" "rep L (basis L k ! r) = basis L k ! r"
    "(k * int (period L (basis L k ! r))) mod int L = 0"
proof -
  have "basis L k ! r \<in> set (basis L k)" using assms by simp
  then show "basis L k ! r \<in> states L" "rep L (basis L k ! r) = basis L k ! r"
    "(k * int (period L (basis L k ! r))) mod int L = 0"
    by (simp_all add: set_basis in_sector_def)
qed



lemma BuildHNk_full:
  assumes "0 < L"
  shows "\<exists>cols rows vals.
     BuildHNk L k J g = Inr (cols, rows, vals, length (basis (nat L) k), basis (nat L) k)
     \<and> length rows = length cols \<and> length vals = length cols
     \<and> distinct (zip cols rows)
     \<and> set (zip cols rows)
         = (\<Union>n\<in>set (basis (nat L) k). row_keys (nat L) J g (basis (nat L) k) n)
     \<and> (\<forall>r c. entry (cols, rows, vals, length (basis (nat L) k), basis (nat L) k) r c
           = (if r < length (basis (nat L) k)
              then row_contrib (nat L) k J g (basis (nat L) k) (basis (nat L) k ! r) r c
              else 0))"
proof -
  let ?B = "basis (nat L) k"
  from foldE_outer[OF assms distinct_basis[of "nat L" k] basis_states[of "nat L" k]
      hnk_inv_init subset_refl, where k = k and J = J and g = g]
  obtain s where s: "foldE (hnk_outer L k J g ?B) ?B hnk_init = Inr s" "hnk_inv s"
    "\<forall>r c. entry_of s r c
        = entry_of hnk_init r c + sum_list (map (\<lambda>n. row_contrib (nat L) k J g ?B n r c) ?B)"
    by blast
  have 1: "BuildHNk L k J g = Inr (HNk_col s, HNk_row s, HNk_val s, length ?B, ?B)"
    by (simp add: BuildHNk_def BuildBasisNk_eq[OF assms] s(1))
  have 2: "entry (HNk_col s, HNk_row s, HNk_val s, length ?B, ?B) r c
      = (if r < length ?B then row_contrib (nat L) k J g ?B (?B ! r) r c else 0)" for r c
    using s(3) by (simp add: entry_entry_of entry_of_init sum_rows[OF distinct_basis])
  have len: "length (HNk_row s) = length (HNk_col s)" "length (HNk_val s) = length (HNk_col s)"
    using s(2) by (simp_all add: hnk_inv_def)
  have 3: "distinct (zip (HNk_col s) (HNk_row s))"
    unfolding distinct_conv_nth
  proof (intro allI impI)
    fix i j assume i: "i < length (zip (HNk_col s) (HNk_row s))"
      and j: "j < length (zip (HNk_col s) (HNk_row s))" and ne: "i \<noteq> j"
    show "zip (HNk_col s) (HNk_row s) ! i \<noteq> zip (HNk_col s) (HNk_row s) ! j"
    proof
      assume eq: "zip (HNk_col s) (HNk_row s) ! i = zip (HNk_col s) (HNk_row s) ! j"
      have ii: "i < length (HNk_col s)" "j < length (HNk_col s)" using i j len by simp_all
      then have e: "HNk_col s ! i = HNk_col s ! j" "HNk_row s ! i = HNk_row s ! j"
        using eq len by simp_all
      have "pos s (HNk_col s ! j, HNk_row s ! j) = Some i"
        using s(2) ii(1) e by (simp add: hnk_inv_def)
      moreover have "pos s (HNk_col s ! j, HNk_row s ! j) = Some j"
        using s(2) ii(2) by (simp add: hnk_inv_def)
      ultimately show False using ne by simp
    qed
  qed
  have "dom (pos s) = dom (pos (hnk_init :: complex hnk_state)) \<union> (\<Union>n\<in>set ?B. row_keys (nat L) J g ?B n)"
    by (rule foldE_outer_dom[OF assms distinct_basis basis_states subset_refl s(1)])
  then have 4: "set (zip (HNk_col s) (HNk_row s)) = (\<Union>n\<in>set ?B. row_keys (nat L) J g ?B n)"
    by (simp add: inv_dom_zip[OF s(2)] hnk_init_def)
  show ?thesis
    apply (rule exI[of _ "HNk_col s"])
    apply (rule exI[of _ "HNk_row s"])
    apply (rule exI[of _ "HNk_val s"])
    apply (intro conjI allI 1 2 3 4 len)
    done
qed




lemma BuildHNk_neg: "L < 0 \<Longrightarrow> BuildHNk L k J g = Inl TypeError"
  by (simp add: BuildHNk_def BuildBasisNk_def BuildBasisN_def)

lemma basis_step_zero: "basis_step 0 k 0 acc = Inl ValueError"
proof -
  have "Tlist 0 0 = Inr [rotl 0 0 0]" using Tlist_eq[of 0 0] by simp
  then show ?thesis by (simp add: basis_step_def minE_def period_in_def)
qed

lemma BuildHNk_zero: "BuildHNk 0 k J g = Inl ValueError"
proof -
  have "py_range 0 1 = [0]" using py_range_nat[of 1] by simp
  then have "BuildBasisN 0 = Inr [0]" by (simp add: BuildBasisN_def)
  then have "BuildBasisNk 0 k = Inl ValueError"
    by (simp add: BuildBasisNk_def basis_step_zero)
  then show ?thesis by (simp add: BuildHNk_def)
qed

lemma py_range_0_1: "py_range 0 1 = [0]"
  using py_range_nat[of 1] by simp

lemma py_range_0_2: "py_range 0 2 = [0, 1]"
  using py_range_nat[of 2] by (simp add: numeral_2_eq_2)

lemma Tlist_0_1: "Tlist 0 1 = Inr [0, 0]"
  by (simp add: Tlist_def py_range_0_2 RotLBit_def PickBit_def)

lemma Tlist_1_1: "Tlist 1 1 = Inr [1, 1]"
  by (simp add: Tlist_def py_range_0_2 RotLBit_def PickBit_def)

lemma BuildBasisNk_1_0: "BuildBasisNk 1 0 = Inr [0, 1]"
  by (simp add: BuildBasisNk_def BuildBasisN_def py_range_0_2 basis_step_def Tlist_0_1 Tlist_1_1 minE_def period_in_def)

lemma Task_triplets_nonpos:
  "L \<le> 0 \<Longrightarrow> Task_triplets L = Inr \<lparr>count = 0, Hx = [], Hy = [], Hn = []\<rparr>"
  by (simp add: Task_triplets_def py_range_0)

section \<open>Counting states by orbits and sectors\<close>

lemma card_residue:
  assumes "0 < q" "r < q"
  shows "card {s. s < m * q \<and> s mod q = r} = m"
proof (induction m)
  case 0
  then show ?case by simp
next
  case (Suc m)
  have "{s. s < Suc m * q \<and> s mod q = r} = insert (m * q + r) {s. s < m * q \<and> s mod q = r}"
  proof (intro set_eqI iffI)
    fix s assume "s \<in> {s. s < Suc m * q \<and> s mod q = r}"
    then have s: "s < Suc m * q" "s mod q = r" by simp_all
    show "s \<in> insert (m * q + r) {s. s < m * q \<and> s mod q = r}"
    proof (cases "s < m * q")
      case True
      then show ?thesis using s by simp
    next
      case False
      then have "m * q \<le> s" by simp
      then have "m \<le> s div q" using assms(1) by (simp add: less_eq_div_iff_mult_less_eq)
      moreover have "s div q < Suc m" using s(1) assms(1) by (simp add: less_mult_imp_div_less)
      ultimately have "s div q = m" by simp
      then have "s = m * q + r" using s(2) div_mult_mod_eq[of s q] by simp
      then show ?thesis by simp
    qed
  next
    fix s assume "s \<in> insert (m * q + r) {s. s < m * q \<and> s mod q = r}"
    then show "s \<in> {s. s < Suc m * q \<and> s mod q = r}" using assms by auto
  qed
  moreover have "m * q + r \<notin> {s. s < m * q \<and> s mod q = r}" by simp
  moreover have "finite {s. s < m * q \<and> s mod q = r}" by simp
  ultimately show ?case using Suc by simp
qed

lemma card_states: "card (states L) = 2 ^ L"
proof -
  have "distinct (all_states L)"
    using sorted_all_states[of L] by (simp add: strict_sorted_iff)
  then have "card (set (all_states L)) = length (all_states L)" by (rule distinct_card)
  then have "card (states L) = length (all_states L)" by (simp only: set_all_states)
  then show ?thesis by (simp add: all_states_def)
qed

lemma finite_states [simp]: "finite (states L)"
  using set_all_states[of L] by (metis List.finite_set)

lemma orbit_period_image:
  assumes "n \<in> states L" "0 < L"
  shows "orbit L n = (\<lambda>i. cyc L (int i) n) ` {..<period L n}"
proof
  show "(\<lambda>i. cyc L (int i) n) ` {..<period L n} \<subseteq> orbit L n"
    using assms(2) by (auto simp add: orbit_eq)
  show "orbit L n \<subseteq> (\<lambda>i. cyc L (int i) n) ` {..<period L n}"
  proof
    fix x assume "x \<in> orbit L n"
    then obtain t where t: "x = cyc L t n" using assms(2) by (auto simp add: orbit_eq)
    define P where "P = int (period L n)"
    have P: "0 < P" using period_props(1)[OF assms] by (simp add: P_def)
    have "P dvd (t - t mod P)" by (simp add: dvd_eq_mod_eq_0 mod_diff_right_eq)
    then have "cyc L t n = cyc L (t mod P) n"
      unfolding P_def by (simp only: cyc_eq_iff[OF assms])
    moreover have "t mod P = int (nat (t mod P))" using P by simp
    moreover have "nat (t mod P) < period L n" using P by (simp add: P_def nat_less_iff)
    ultimately show "x \<in> (\<lambda>i. cyc L (int i) n) ` {..<period L n}"
      using t by (metis imageI lessThan_iff)
  qed
qed

lemma card_orbit:
  assumes "n \<in> states L" "0 < L"
  shows "card (orbit L n) = period L n"
proof -
  have "inj_on (\<lambda>i. cyc L (int i) n) {..<period L n}"
  proof (rule inj_onI)
    fix a b assume a: "a \<in> {..<period L n}" and b: "b \<in> {..<period L n}"
      and e: "cyc L (int a) n = cyc L (int b) n"
    have "int (period L n) dvd (int a - int b)" using e by (simp only: cyc_eq_iff[OF assms])
    moreover have "\<bar>int a - int b\<bar> < int (period L n)" using a b by auto
    ultimately have "int a - int b = 0"
      using dvd_imp_le_int[of "int a - int b" "int (period L n)"] by fastforce
    then show "a = b" by simp
  qed
  then show ?thesis by (simp add: orbit_period_image[OF assms] card_image)
qed

lemma rep_eq_orbit:
  assumes "n \<in> states L" "0 < L" "rep L n = n"
  shows "{x \<in> states L. rep L x = n} = orbit L n"
proof (intro set_eqI iffI)
  fix x assume "x \<in> {x \<in> states L. rep L x = n}"
  then have x: "x \<in> states L" "rep L x = n" by simp_all
  from rep_in_orbit[OF assms(2), of x] x(2) obtain t where "n = cyc L t x"
    using assms(2) by (auto simp add: orbit_eq)
  then have "cyc L (- t) n = x" using x(1) by (simp add: cyc_add[OF x(1) assms(2)])
  then show "x \<in> orbit L n" using assms(2) by (auto simp add: orbit_eq)
next
  fix x assume "x \<in> orbit L n"
  then obtain t where "x = cyc L t n" using assms(2) by (auto simp add: orbit_eq)
  then show "x \<in> {x \<in> states L. rep L x = n}"
    using assms by (simp add: cyc_states rep_cyc)
qed

lemma sum_periods:
  assumes "0 < L"
  shows "(\<Sum>n\<in>{n \<in> states L. rep L n = n}. period L n) = 2 ^ L"
proof -
  have img: "rep L ` states L = {n \<in> states L. rep L n = n}"
  proof (intro set_eqI iffI)
    fix n assume "n \<in> rep L ` states L"
    then show "n \<in> {n \<in> states L. rep L n = n}"
      using assms by (auto simp add: rep_states rep_rep)
  next
    fix n assume "n \<in> {n \<in> states L. rep L n = n}"
    then show "n \<in> rep L ` states L" by (metis (mono_tags, lifting) image_eqI mem_Collect_eq)
  qed
  have "card (states L) = (\<Sum>x\<in>states L. 1)" by simp
  also have "\<dots> = (\<Sum>n\<in>rep L ` states L. \<Sum>x\<in>{x \<in> states L. rep L x = n}. 1)"
    by (rule sum.image_gen) simp
  also have "\<dots> = (\<Sum>n\<in>{n \<in> states L. rep L n = n}. card {x \<in> states L. rep L x = n})"
    by (simp add: img)
  also have "\<dots> = (\<Sum>n\<in>{n \<in> states L. rep L n = n}. period L n)"
    by (rule sum.cong[OF refl]) (simp add: rep_eq_orbit assms card_orbit)
  finally show ?thesis by (simp add: card_states)
qed

lemma card_sectors:
  assumes "n \<in> states L" "0 < L"
  shows "card {k. k < L \<and> (int k * int (period L n)) mod int L = 0} = period L n"
proof -
  define P where "P = period L n"
  have P: "0 < P" "P dvd L" using period_props(1)[OF assms] period_dvd[OF assms] by (simp_all add: P_def)
  define q where "q = L div P"
  have L: "L = P * q" using P(2) by (simp add: q_def)
  have q: "0 < q" using assms(2) L by (cases q) simp_all
  have "(int k * int P) mod int L = 0 \<longleftrightarrow> k mod q = 0" for k
  proof -
    have "int L = int (P * q)" by (simp only: L)
    then have "(int k * int P) mod int L = int ((P * k) mod (P * q))"
      by (simp only: zmod_int of_nat_mult mult.commute[of "int k" "int P"])
    also have "(P * k) mod (P * q) = P * (k mod q)" by (rule mod_mult_mult1)
    finally show ?thesis using P(1) by simp
  qed
  then have "{k. k < L \<and> (int k * int P) mod int L = 0} = {k. k < L \<and> k mod q = 0}"
    by simp
  also have "\<dots> = {k. k < P * q \<and> k mod q = 0}" by (simp only: L[symmetric])
  finally have "card {k. k < L \<and> (int k * int P) mod int L = 0} = P"
    using card_residue[OF q q, of P] by (simp only:)
  then show ?thesis by (simp only: P_def)
qed

lemma length_basis:
  "length (basis L k) = (\<Sum>n\<in>states L. if in_sector L k n then 1 else 0)"
proof -
  have "length (basis L k) = card (set (basis L k))"
    by (rule distinct_card[symmetric]) (simp add: basis_def distinct_basis[unfolded basis_def])
  also have "\<dots> = card {n \<in> states L. in_sector L k n}" by (simp add: set_basis)
  also have "\<dots> = (\<Sum>n\<in>states L. if in_sector L k n then 1 else 0)"
    by (simp add: sum.If_cases Int_def)
  finally show ?thesis .
qed

lemma sum_length_basis:
  assumes "0 < L"
  shows "(\<Sum>k = 0..<L. length (basis L (int k))) = 2 ^ L"
proof -
  have "(\<Sum>k = 0..<L. length (basis L (int k)))
      = (\<Sum>k = 0..<L. \<Sum>n\<in>states L. if in_sector L (int k) n then 1 else 0)"
    by (simp only: length_basis)
  also have "\<dots> = (\<Sum>n\<in>states L. \<Sum>k = 0..<L. if in_sector L (int k) n then 1 else 0)"
    by (rule sum.swap)
  also have "\<dots> = (\<Sum>n\<in>states L. if rep L n = n then period L n else 0)"
  proof (rule sum.cong[OF refl])
    fix n assume n: "n \<in> states L"
    have "(\<Sum>k = 0..<L. if in_sector L (int k) n then 1 else 0)
        = card {k \<in> {0..<L}. in_sector L (int k) n}"
      by (simp add: sum.If_cases Int_def)
    also have "\<dots> = (if rep L n = n then period L n else 0)"
    proof (cases "rep L n = n")
      case True
      then have "{k \<in> {0..<L}. in_sector L (int k) n}
          = {k. k < L \<and> (int k * int (period L n)) mod int L = 0}"
        by (auto simp add: in_sector_def)
      then show ?thesis using True card_sectors[OF n assms] by simp
    next
      case False
      then show ?thesis by (simp add: in_sector_def)
    qed
    finally show "(\<Sum>k = 0..<L. if in_sector L (int k) n then 1 else 0)
        = (if rep L n = n then period L n else 0)" .
  qed
  also have "\<dots> = (\<Sum>n\<in>{n \<in> states L. rep L n = n}. period L n)"
    by (simp add: sum.If_cases Int_def)
  also have "\<dots> = 2 ^ L" by (rule sum_periods[OF assms])
  finally show ?thesis .
qed

section \<open>Phase factors and the symmetry of the matrix elements\<close>

lemma uroot_0 [simp]: "uroot L 0 = 1"
  by (simp add: uroot_def)

lemma uroot_add: "uroot L (x + y) = uroot L x * uroot L y"
  by (simp add: uroot_def cis_mult add_divide_distrib distrib_left)

lemma uroot_cnj: "cnj (uroot L x) = uroot L (- x)"
  by (simp add: uroot_def cis_cnj)

lemma cis_2pi_int: "cis (2 * pi * real_of_int q) = 1"
  by (simp add: complex_eq_iff)

lemma uroot_multiple:
  assumes "0 < L" "int L dvd x"
  shows "uroot L x = 1"
proof -
  from assms(2) obtain q where "x = int L * q" by (auto simp add: dvd_def)
  then have "2 * pi * real_of_int x / real L = 2 * pi * real_of_int q"
    using assms(1) by simp
  then show ?thesis by (simp only: uroot_def cis_2pi_int)
qed

lemma uroot_cong:
  assumes "0 < L" "int L dvd (x - y)"
  shows "uroot L x = uroot L y"
proof -
  have "uroot L x = uroot L (y + (x - y))" by simp
  also have "\<dots> = uroot L y * uroot L (x - y)" by (rule uroot_add)
  also have "\<dots> = uroot L y" by (simp add: uroot_multiple[OF assms])
  finally show ?thesis .
qed

lemma amp_root:
  "amp (int L) k h d Rn Rm
     = of_real h * uroot L (k * int d) * of_real (sqrt (real Rn)) / of_real (sqrt (real Rm))"
proof -
  have "\<i> * of_int k * of_nat d * 2 * of_real pi / of_int (int L)
      = \<i> * complex_of_real (2 * pi * real_of_int (k * int d) / real L)"
    by simp
  then show ?thesis by (simp only: amp_def uroot_def cis_conv_exp)
qed

lemma card_shifted:
  assumes "0 < P" "P dvd L"
  shows "card {s. s < L \<and> int P dvd (int s - int d)} = L div P"
proof -
  have L: "L = (L div P) * P" using assms(2) by simp
  have "int P dvd (int s - int d) \<longleftrightarrow> s mod P = d mod P" for s
  proof -
    have "int P dvd (int s - int d) \<longleftrightarrow> int s mod int P = int d mod int P"
      by (simp only: mod_eq_dvd_iff)
    also have "\<dots> \<longleftrightarrow> int (s mod P) = int (d mod P)" by (simp only: zmod_int)
    finally show ?thesis by simp
  qed
  then have "{s. s < L \<and> int P dvd (int s - int d)} = {s. s < L \<and> s mod P = d mod P}"
    by simp
  also have "\<dots> = {s. s < (L div P) * P \<and> s mod P = d mod P}" by (simp only: L[symmetric])
  finally show ?thesis
    using card_residue[OF assms(1), of "d mod P" "L div P"] assms(1) by simp
qed

lemma orbit_sum:
  assumes "y \<in> states L" "m \<in> states L" "0 < L" "rep L m = m"
    "int L dvd k * int (period L m)"
  shows "(\<Sum>s = 0..<L. if cyc L (int s) y = m then uroot L (k * int s) else 0)
     = (if rep L y = m then of_nat (L div period L m) * uroot L (k * int (rdist L y)) else 0)"
proof (cases "rep L y = m")
  case False
  have "cyc L (int s) y \<noteq> m" for s
  proof
    assume "cyc L (int s) y = m"
    then have "rep L (cyc L (int s) y) = rep L m" by simp
    then show False using False assms(4) by (simp add: rep_cyc[OF assms(1,3)])
  qed
  then show ?thesis using False by simp
next
  case True
  define d where "d = rdist L y"
  define P where "P = period L m"
  have Py: "period L y = P"
    using period_rep[OF assms(1,3)] True by (simp add: P_def)
  have P: "0 < P" "P dvd L"
    using period_props(1)[OF assms(2,3)] period_dvd[OF assms(2,3)] by (simp_all add: P_def)
  have d: "cyc L (int d) y = m" using rdist_props(2)[OF assms(1,3)] True by (simp add: d_def)
  have iff: "cyc L (int s) y = m \<longleftrightarrow> int P dvd (int s - int d)" for s
    using cyc_eq_iff[OF assms(1,3), of "int s" "int d"] d Py by simp
  have rt: "uroot L (k * int s) = uroot L (k * int d)" if "int P dvd (int s - int d)" for s
  proof (rule uroot_cong[OF assms(3)])
    from that obtain q where q: "int s - int d = int P * q" by (auto simp add: dvd_def)
    have "k * int s - k * int d = k * (int s - int d)" by (simp add: algebra_simps)
    also have "\<dots> = (k * int P) * q" by (simp only: q mult.assoc)
    finally have "k * int s - k * int d = (k * int P) * q" .
    then show "int L dvd k * int s - k * int d" using assms(5) by (simp add: P_def)
  qed
  have "(\<Sum>s = 0..<L. if cyc L (int s) y = m then uroot L (k * int s) else 0)
      = (\<Sum>s = 0..<L. if int P dvd (int s - int d) then uroot L (k * int d) else 0)"
  proof (rule sum.cong[OF refl])
    fix s
    show "(if cyc L (int s) y = m then uroot L (k * int s) else 0)
        = (if int P dvd (int s - int d) then uroot L (k * int d) else 0)"
    proof (cases "int P dvd (int s - int d)")
      case True
      then show ?thesis using rt[OF True] by (simp only: iff if_True)
    next
      case False
      then show ?thesis by (simp only: iff if_False)
    qed
  qed
  also have "\<dots> = of_nat (card {s \<in> {0..<L}. int P dvd (int s - int d)}) * uroot L (k * int d)"
    by (simp add: sum.If_cases Int_def)
  also have "{s \<in> {0..<L}. int P dvd (int s - int d)} = {s. s < L \<and> int P dvd (int s - int d)}"
    by auto
  also have "card \<dots> = L div P" by (rule card_shifted[OF P])
  finally show ?thesis using True by (simp add: d_def P_def)
qed

lemma link_hop:
  assumes "n \<in> states L" "m \<in> states L" "0 < L" "rep L m = m"
    "int L dvd k * int (period L m)"
  shows "link L k n m = of_nat (L div period L m) * hop L k n m"
proof -
  have "(\<Sum>s = 0..<L. if cyc L (int s) (n XOR push_bit i 1) = m then uroot L (k * int s) else 0)
      = of_nat (L div period L m)
          * (if rep L (n XOR push_bit i 1) = m
             then uroot L (k * int (rdist L (n XOR push_bit i 1))) else 0)"
    if "i \<in> {0..<L}" for i
  proof -
    have "n XOR push_bit i 1 \<in> states L" using that by (intro xor_states assms(1)) simp
    from orbit_sum[OF this assms(2,3,4,5)] show ?thesis
    proof (cases "rep L (n XOR push_bit i 1) = m")
      case True
      assume "(\<Sum>s = 0..<L. if cyc L (int s) (n XOR push_bit i 1) = m then uroot L (k * int s) else 0)
        = (if rep L (n XOR push_bit i 1) = m
           then of_nat (L div period L m) * uroot L (k * int (rdist L (n XOR push_bit i 1))) else 0)"
      then show ?thesis using True by (simp only: simp_thms if_True)
    next
      case False
      assume "(\<Sum>s = 0..<L. if cyc L (int s) (n XOR push_bit i 1) = m then uroot L (k * int s) else 0)
        = (if rep L (n XOR push_bit i 1) = m
           then of_nat (L div period L m) * uroot L (k * int (rdist L (n XOR push_bit i 1))) else 0)"
      then show ?thesis using False by (simp only: if_False mult_zero_right)
    qed
  qed
  then show ?thesis
    unfolding link_def hop_def sum_distrib_left by (rule sum.cong[OF refl])
qed

lemma turn_in:
  assumes "0 < L"
  shows "turn L p \<in> {0..<L} \<times> {0..<L}"
  using assms by (simp add: turn_def nat_less_iff)

lemma turn_turn:
  assumes "0 < L" "p \<in> {0..<L} \<times> {0..<L}"
  shows "turn L (turn L p) = p"
proof -
  obtain i s where p: "p = (i, s)" "i < L" "s < L" using assms(2) by auto
  have nn: "0 \<le> (int i + int s) mod int L" "0 \<le> (- int s) mod int L" using assms(1) by simp_all
  have "((int i + int s) mod int L + (- int s) mod int L) mod int L = (int i + int s + - int s) mod int L"
    by (simp only: mod_add_eq)
  then have 1: "((int i + int s) mod int L + (- int s) mod int L) mod int L = int i"
    using p(2) by simp
  have "(- ((- int s) mod int L)) mod int L = (- (- int s)) mod int L"
    by (simp only: mod_minus_eq)
  then have 2: "(- ((- int s) mod int L)) mod int L = int s" using p(3) by simp
  show ?thesis using nn 1 2 by (simp add: turn_def p(1))
qed

lemma xor_swap: "(a::int) XOR x = b \<longleftrightarrow> a = b XOR x"
  by (metis xor.assoc xor_self_eq xor.right_neutral)

lemma link_term:
  assumes "n \<in> states L" "m \<in> states L" "0 < L" "i < L" "s < L"
  shows "(if cyc L (int (snd (turn L (i, s)))) (m XOR push_bit (fst (turn L (i, s))) 1) = n
          then uroot L (- (k * int (snd (turn L (i, s))))) else 0)
     = (if cyc L (int s) (n XOR push_bit i 1) = m then uroot L (k * int s) else 0)"
proof -
  define j where "j = nat ((int i + int s) mod int L)"
  define t where "t = nat ((- int s) mod int L)"
  have j: "j < L" using assms(3) by (simp add: j_def nat_less_iff)
  have t: "int t = (- int s) mod int L" using assms(3) by (simp add: t_def)
  have tt: "turn L (i, s) = (j, t)" by (simp add: turn_def j_def t_def)
  have x: "m XOR push_bit j 1 \<in> states L" by (rule xor_states[OF assms(2) j])
  have c: "cyc L (int s) n \<in> states L" by (rule cyc_states[OF assms(1,3)])
  have "cyc L (int s) (n XOR push_bit i 1) = cyc L (int s) n XOR push_bit j 1"
    unfolding j_def by (rule cyc_xor_bit[OF assms(1,3,4)])
  then have lhs: "cyc L (int s) (n XOR push_bit i 1) = m
      \<longleftrightarrow> cyc L (int s) n = m XOR push_bit j 1"
    by (simp only: xor_swap)
  have "cyc L (int t) (m XOR push_bit j 1) = cyc L (- int s) (m XOR push_bit j 1)"
    by (simp only: t cyc_mod)
  then have rhs: "cyc L (int t) (m XOR push_bit j 1) = n
      \<longleftrightarrow> cyc L (int s) n = m XOR push_bit j 1"
  proof -
    have "cyc L (int s) (cyc L (- int s) (m XOR push_bit j 1))
        = cyc L (int s + - int s) (m XOR push_bit j 1)"
      by (rule cyc_add[OF x assms(3)])
    then have a: "cyc L (int s) (cyc L (- int s) (m XOR push_bit j 1)) = m XOR push_bit j 1"
      using cyc_0[OF x] by (simp only: add.right_inverse)
    have "cyc L (- int s) (cyc L (int s) n) = cyc L (- int s + int s) n"
      by (rule cyc_add[OF assms(1,3)])
    then have b: "cyc L (- int s) (cyc L (int s) n) = n"
      using cyc_0[OF assms(1)] by (simp only: add.left_inverse)
    have "cyc L (- int s) (m XOR push_bit j 1) = n
        \<longleftrightarrow> cyc L (int s) n = m XOR push_bit j 1"
    proof
      assume "cyc L (- int s) (m XOR push_bit j 1) = n"
      then show "cyc L (int s) n = m XOR push_bit j 1" using a by (simp only:)
    next
      assume "cyc L (int s) n = m XOR push_bit j 1"
      then show "cyc L (- int s) (m XOR push_bit j 1) = n" using b by (simp only:)
    qed
    then show ?thesis
      using \<open>cyc L (int t) (m XOR push_bit j 1) = cyc L (- int s) (m XOR push_bit j 1)\<close>
      by (simp only:)
  qed
  have "(int t + int s) mod int L = (- int s + int s) mod int L"
    by (simp only: t mod_add_left_eq)
  then have "int L dvd (int t + int s)" by (simp add: mod_eq_0_iff_dvd)
  then have "int L dvd (- (k * int t) - k * int s)"
  proof -
    assume d: "int L dvd (int t + int s)"
    have "- (k * int t) - k * int s = (int t + int s) * (- k)" by (simp add: algebra_simps)
    then show ?thesis using d by (simp only: dvd_mult2)
  qed
  then have r: "uroot L (- (k * int t)) = uroot L (k * int s)" by (rule uroot_cong[OF assms(3)])
  show ?thesis by (simp only: tt fst_conv snd_conv lhs rhs r)
qed

lemma link_sym:
  assumes "n \<in> states L" "m \<in> states L" "0 < L"
  shows "link L k n m = cnj (link L k m n)"
proof -
  let ?A = "{0..<L} \<times> {0..<L}"
  let ?f = "\<lambda>p. if cyc L (int (snd p)) (n XOR push_bit (fst p) 1) = m
                 then uroot L (k * int (snd p)) else 0"
  let ?g = "\<lambda>p. if cyc L (int (snd p)) (m XOR push_bit (fst p) 1) = n
                 then uroot L (- (k * int (snd p))) else 0"
  have "link L k n m = (\<Sum>p\<in>?A. ?f p)"
    unfolding link_def by (simp only: sum.cartesian_product split_def)
  also have "\<dots> = (\<Sum>p\<in>?A. ?g p)"
  proof (rule sum.reindex_bij_witness[where i = "turn L" and j = "turn L"])
    fix p assume p: "p \<in> ?A"
    show "turn L (turn L p) = p" by (rule turn_turn[OF assms(3) p])
    show "turn L p \<in> ?A" by (rule turn_in[OF assms(3)])
    obtain i s where ps: "p = (i, s)" "i < L" "s < L" using p by auto
    show "?g (turn L p) = ?f p"
      using link_term[OF assms ps(2,3), of k] by (simp only: ps(1) fst_conv snd_conv)
  next
    fix p assume p: "p \<in> ?A"
    show "turn L (turn L p) = p" by (rule turn_turn[OF assms(3) p])
    show "turn L p \<in> ?A" by (rule turn_in[OF assms(3)])
  qed
  also have "\<dots> = cnj (link L k m n)"
    unfolding link_def
    by (simp only: sum.cartesian_product split_def cnj_sum if_distrib[of cnj]
        uroot_cnj complex_cnj_zero)
  finally show ?thesis .
qed

lemma hop_sym:
  assumes "n \<in> states L" "m \<in> states L" "0 < L" "rep L n = n" "rep L m = m"
    "int L dvd k * int (period L n)" "int L dvd k * int (period L m)"
  shows "of_nat (period L n) * hop L k n m = of_nat (period L m) * cnj (hop L k m n)"
proof -
  define Pn where "Pn = period L n"
  define Pm where "Pm = period L m"
  have Pn: "0 < Pn" "Pn dvd L"
    using period_props(1)[OF assms(1,3)] period_dvd[OF assms(1,3)] by (simp_all add: Pn_def)
  have Pm: "0 < Pm" "Pm dvd L"
    using period_props(1)[OF assms(2,3)] period_dvd[OF assms(2,3)] by (simp_all add: Pm_def)
  have 1: "link L k n m = of_nat (L div Pm) * hop L k n m"
    unfolding Pm_def by (rule link_hop[OF assms(1,2,3,5,7)])
  have 2: "link L k m n = of_nat (L div Pn) * hop L k m n"
    unfolding Pn_def by (rule link_hop[OF assms(2,1,3,4,6)])
  have "of_nat (L div Pm) * hop L k n m = cnj (of_nat (L div Pn) * hop L k m n)"
    using link_sym[OF assms(1,2,3), of k] by (simp only: 1 2)
  then have e: "of_nat (L div Pm) * hop L k n m = of_nat (L div Pn) * cnj (hop L k m n)"
    by simp
  have "of_nat L * (of_nat Pn * hop L k n m)
      = of_nat (Pn * Pm) * (of_nat (L div Pm) * hop L k n m)"
  proof -
    have "L * Pn = Pn * Pm * (L div Pm)" using Pm(2) by simp
    then have "(of_nat (L * Pn) :: complex) = of_nat (Pn * Pm * (L div Pm))" by (simp only:)
    then have "(of_nat (L * Pn) :: complex) * hop L k n m
        = of_nat (Pn * Pm * (L div Pm)) * hop L k n m" by (simp only:)
    then show ?thesis by (simp add: mult.assoc)
  qed
  also have "\<dots> = of_nat (Pn * Pm) * (of_nat (L div Pn) * cnj (hop L k m n))"
    by (simp only: e)
  also have "\<dots> = of_nat L * (of_nat Pm * cnj (hop L k m n))"
  proof -
    have "Pn * (L div Pn) = L" using Pn(2) by simp
    then have "Pn * Pm * (L div Pn) = L * Pm" by (metis mult.assoc mult.commute)
    then have "(of_nat (Pn * Pm * (L div Pn)) :: complex) = of_nat (L * Pm)" by (simp only:)
    then have "(of_nat (Pn * Pm * (L div Pn)) :: complex) * cnj (hop L k m n)
        = of_nat (L * Pm) * cnj (hop L k m n)" by (simp only:)
    then show ?thesis by (simp add: mult.assoc)
  qed
  finally have "of_nat L * (of_nat Pn * hop L k n m) = of_nat L * (of_nat Pm * cnj (hop L k m n))" .
  then show ?thesis using assms(3) by (simp add: Pn_def Pm_def)
qed

lemma row_contrib_out: "\<not> c < length B \<Longrightarrow> row_contrib L k J g B n r c = 0"
  by (simp add: row_contrib_def contrib_def case_prod_beta)

lemma contrib_flip:
  assumes "x \<in> states L" "0 < L" "r < length B" "c < length B"
  shows "contrib L k B (B ! r) (x, h) r c
     = of_real h * of_real (sqrt (real (period L (B ! r)))) / of_real (sqrt (real (period L (B ! c))))
         * (if rep L x = B ! c then uroot L (k * int (rdist L x)) else 0)"
proof (cases "rep L x = B ! c")
  case True
  have "period L x = period L (B ! c)" using period_rep[OF assms(1,2)] True by simp
  then show ?thesis using True assms(3,4) by (simp add: contrib_def amp_root)
next
  case False
  then have "B ! c \<noteq> rep L x" by simp
  then show ?thesis using False by (simp add: contrib_def)
qed

lemma row_contrib_hop:
  assumes "0 < L" "r < length (basis L k)" "c < length (basis L k)"
  shows "row_contrib L k J g (basis L k) (basis L k ! r) r c
     = of_real (- J * g) * of_real (sqrt (real (period L (basis L k ! r))))
         / of_real (sqrt (real (period L (basis L k ! c))))
         * hop L k (basis L k ! r) (basis L k ! c)
       + (if c = r then of_real (diag_sum L J (basis L k ! r)) else 0)"
proof -
  let ?B = "basis L k"
  note b = basis_nth[OF assms(2)]
  have "(\<Sum>i = 0..<L. contrib L k ?B (?B ! r) (?B ! r XOR push_bit i 1, - J * g) r c)
      = (\<Sum>i = 0..<L. of_real (- J * g) * of_real (sqrt (real (period L (?B ! r))))
             / of_real (sqrt (real (period L (?B ! c))))
           * (if rep L (?B ! r XOR push_bit i 1) = ?B ! c
              then uroot L (k * int (rdist L (?B ! r XOR push_bit i 1))) else 0))"
  proof (rule sum.cong[OF refl])
    fix i assume "i \<in> {0..<L}"
    then have "?B ! r XOR push_bit i 1 \<in> states L" by (intro xor_states b(1)) simp
    then show "contrib L k ?B (?B ! r) (?B ! r XOR push_bit i 1, - J * g) r c
        = of_real (- J * g) * of_real (sqrt (real (period L (?B ! r))))
             / of_real (sqrt (real (period L (?B ! c))))
           * (if rep L (?B ! r XOR push_bit i 1) = ?B ! c
              then uroot L (k * int (rdist L (?B ! r XOR push_bit i 1))) else 0)"
      by (rule contrib_flip[OF _ assms(1,2,3)])
  qed
  also have "\<dots> = of_real (- J * g) * of_real (sqrt (real (period L (?B ! r))))
         / of_real (sqrt (real (period L (?B ! c)))) * hop L k (?B ! r) (?B ! c)"
    unfolding hop_def by (rule sum_distrib_left[symmetric])
  finally have flips: "(\<Sum>i = 0..<L. contrib L k ?B (?B ! r) (?B ! r XOR push_bit i 1, - J * g) r c)
      = of_real (- J * g) * of_real (sqrt (real (period L (?B ! r))))
         / of_real (sqrt (real (period L (?B ! c)))) * hop L k (?B ! r) (?B ! c)" .
  show ?thesis
    unfolding row_contrib_split flips
    by (simp only: contrib_diag[OF b(1) assms(1) b(2) distinct_basis assms(2) refl])
qed

lemma hermitian_algebra:
  fixes X Y :: complex and h :: real
  assumes "0 < Pn" "0 < Pm" "of_nat Pn * X = of_nat Pm * cnj Y"
  shows "of_real h * of_real (sqrt (real Pn)) / of_real (sqrt (real Pm)) * X
     = cnj (of_real h * of_real (sqrt (real Pm)) / of_real (sqrt (real Pn)) * Y)"
proof -
  define a where "a = sqrt (real Pn)"
  define b where "b = sqrt (real Pm)"
  have a: "0 < a" "a * a = real Pn" using assms(1) by (simp_all add: a_def)
  have b: "0 < b" "b * b = real Pm" using assms(2) by (simp_all add: b_def)
  have "of_real (a * a) * X = of_real (b * b) * cnj Y"
    using assms(3) by (simp only: a(2) b(2) of_real_of_nat_eq)
  then have e: "of_real a * of_real a * X = of_real b * of_real b * cnj Y"
    by (simp only: of_real_mult)
  have an: "complex_of_real a \<noteq> 0" and bn: "complex_of_real b \<noteq> 0" using a(1) b(1) by simp_all
  have "of_real a / of_real b * X = of_real b / of_real a * cnj Y"
  proof -
    have "of_real a / of_real b * X = (of_real a * of_real a * X) / (of_real a * of_real b)"
      using an by simp
    also have "\<dots> = (of_real b * of_real b * cnj Y) / (of_real a * of_real b)"
      by (simp only: e)
    also have "\<dots> = of_real b / of_real a * cnj Y" using bn by simp
    finally show ?thesis .
  qed
  then have "of_real h * (of_real a / of_real b * X) = of_real h * (of_real b / of_real a * cnj Y)"
    by (simp only:)
  then show ?thesis by (simp add: a_def b_def mult.assoc)
qed

lemma entry_hermitian:
  assumes "0 < L" "r < length (basis L k)" "c < length (basis L k)"
  shows "row_contrib L k J g (basis L k) (basis L k ! r) r c
     = cnj (row_contrib L k J g (basis L k) (basis L k ! c) c r)"
proof -
  let ?B = "basis L k"
  note br = basis_nth[OF assms(2)]
  note bc = basis_nth[OF assms(3)]
  have dr: "int L dvd k * int (period L (?B ! r))" using br(3) by (simp add: mod_eq_0_iff_dvd)
  have dc: "int L dvd k * int (period L (?B ! c))" using bc(3) by (simp add: mod_eq_0_iff_dvd)
  have sym: "of_nat (period L (?B ! r)) * hop L k (?B ! r) (?B ! c)
      = of_nat (period L (?B ! c)) * cnj (hop L k (?B ! c) (?B ! r))"
    by (rule hop_sym[OF br(1) bc(1) assms(1) br(2) bc(2) dr dc])
  have pr: "0 < period L (?B ! r)" by (rule period_props(1)[OF br(1) assms(1)])
  have pc: "0 < period L (?B ! c)" by (rule period_props(1)[OF bc(1) assms(1)])
  have main: "of_real (- J * g) * of_real (sqrt (real (period L (?B ! r))))
         / of_real (sqrt (real (period L (?B ! c)))) * hop L k (?B ! r) (?B ! c)
     = cnj (of_real (- J * g) * of_real (sqrt (real (period L (?B ! c))))
         / of_real (sqrt (real (period L (?B ! r)))) * hop L k (?B ! c) (?B ! r))"
    by (rule hermitian_algebra[OF pr pc sym])
  have dg: "(if c = r then complex_of_real (diag_sum L J (?B ! r)) else 0)
      = cnj (if r = c then of_real (diag_sum L J (?B ! c)) else 0)"
    by simp
  show ?thesis
    unfolding row_contrib_hop[OF assms] row_contrib_hop[OF assms(1,3,2)] complex_cnj_add
    by (simp only: main dg)
qed

section \<open>Evaluation at small rings\<close>

lemma ActingH_0_1_gen: "ActingH 0 1 J g = Inr [(1, - J * g), (0, - J)]"
  by (simp add: ActingH_def py_range_0_1 bond_step_def ReadBit_def)

lemma ActingH_1_1_gen: "ActingH 1 1 J g = Inr [(0, - J * g), (1, - J)]"
  by (simp add: ActingH_def py_range_0_1 bond_step_def ReadBit_def)

lemma coeff_unit_gen: "coeff h 0 0 1 (Suc 0) (Suc 0) = Inr (of_real h)"
  by (simp add: coeff_def)

lemma BuildHNk_1_0_eval:
  "BuildHNk 1 0 J g
     = Inr ([1, 0, 0, 1], [0, 0, 1, 1],
            [of_real (- J * g), of_real (- J), of_real (- J * g), of_real (- J)], 2, [0, 1])"
  by (simp add: BuildHNk_def BuildBasisNk_1_0 hnk_outer_def ActingH_0_1_gen ActingH_1_1_gen
      hnk_inner_def Tlist_0_1 Tlist_1_1 minE_def period_in_def coeff_unit_gen hnk_init_def)

lemma BuildBasisNk_2_0: "BuildBasisNk 2 0 = Inr [0, 1, 3]"
  by code_simp

lemma BuildBasisNk_2_1: "BuildBasisNk 2 1 = Inr [1]"
  by code_simp

lemma Tlist_5_4: "Tlist 5 4 = Inr [5, 10, 5, 10, 5]"
  by code_simp

lemma period_in_5_4: "period_in [5, 10, 5, 10, 5] 5 = Inr 2"
  by code_simp
section \<open>The program over an arbitrary arithmetic\<close>

lemma foldE_snoc: "foldE f (xs @ [x]) s = bindE (foldE f xs s) (f x)"
proof (induction xs arbitrary: s)
  case Nil
  show ?case by (cases "f x s") simp_all
next
  case (Cons y ys)
  show ?case by (cases "f y s") (simp_all add: Cons.IH)
qed

lemma bond_step_num_eq:
  "bond_step_num A n J (int i, int j) d
     = (if bit n i = bit n j then num_sub A d J else num_add A d J)"
  by (simp add: bond_step_num_def ReadBit_bit)

lemma foldE_bonds_num:
  "j \<le> L \<Longrightarrow>
   foldE (bond_step_num A n J) (map (\<lambda>i. (int i, (int i + 1) mod int L)) [0..<j]) (num_zero A)
     = bond_sum A n L J j"
proof (induction j)
  case 0
  show ?case by simp
next
  case (Suc j)
  then have j: "j < L" by simp
  have m: "(int j + 1) mod int L = int ((j + 1) mod L)"
    by (simp add: zmod_int add.commute)
  have "foldE (bond_step_num A n J) (map (\<lambda>i. (int i, (int i + 1) mod int L)) [0..<Suc j]) (num_zero A)
      = bindE (bond_sum A n L J j) (bond_step_num A n J (int j, int ((j + 1) mod L)))"
    using Suc.IH j by (simp add: foldE_snoc m)
  also have "\<dots> = bond_sum A n L J (Suc j)"
    by (simp add: bond_step_num_eq[abs_def])
  finally show ?case .
qed

lemma mapE_const:
  "mapE (\<lambda>i. bindE M (\<lambda>h. Inr (f i h))) xs
     = (if xs = [] then Inr [] else bindE M (\<lambda>h. Inr (map (\<lambda>i. f i h) xs)))"
proof (cases M)
  case (Inl e)
  then show ?thesis by (cases xs) simp_all
next
  case (Inr h)
  have "mapE (\<lambda>i. Inr (f i h)) xs = Inr (map (\<lambda>i. f i h) xs)"
    by (rule mapE_Inr) (rule refl)
  then show ?thesis using Inr by simp
qed

lemma ActingH_num_eq:
  assumes "1 \<le> L"
  shows "ActingH_num A n L J g =
     bindE (num_mul A (num_neg A J) g) (\<lambda>h.
     bindE (bond_sum A n (nat L) J (nat L)) (\<lambda>d.
       Inr (map (\<lambda>i. (n XOR push_bit i 1, h)) [0..<nat L] @ [(n, d)])))"
proof -
  have L: "int (nat L) = L" "[0..<nat L] \<noteq> []" using assms by simp_all
  have b: "foldE (bond_step_num A n J) (map (\<lambda>i. (i, (i + 1) mod L)) (py_range 0 L)) (num_zero A)
      = bond_sum A n (nat L) J (nat L)"
    using foldE_bonds_num[of "nat L" "nat L" A n J] L(1)
    by (simp add: py_range_0 comp_def)
  have a: "mapE (\<lambda>i. bindE (num_mul A (num_neg A J) g) (\<lambda>h. Inr (n XOR push_bit (nat i) 1, h)))
             (py_range 0 L)
      = bindE (num_mul A (num_neg A J) g) (\<lambda>h. Inr (map (\<lambda>i. (n XOR push_bit i 1, h)) [0..<nat L]))"
    using mapE_const[of "num_mul A (num_neg A J) g" "\<lambda>i h. (n XOR push_bit (nat i) 1, h)" "py_range 0 L"] L(2)
    by (simp add: py_range_0 comp_def)
  show ?thesis
    unfolding ActingH_num_def Let_def a b
    by (cases "num_mul A (num_neg A J) g") simp_all
qed

section \<open>The claims of the specification\<close>

text \<open>
  Claim C1. For a ring of length \<open>L \<ge> 1\<close>, every momentum \<open>k\<close> and all real couplings
  \<open>J\<close> and \<open>g\<close>, \<open>BuildHNk\<close> returns triplets whose accumulated matrix is Hermitian in
  exact complex arithmetic: the entry at row \<open>b\<close> and column \<open>a\<close> is the complex
  conjugate of the entry at row \<open>a\<close> and column \<open>b\<close>, for all indices.
\<close>

theorem sector_matrix_hermitian:
  assumes "1 \<le> L"
  shows "\<exists>cols rows vals B. BuildHNk L k J g = Inr (cols, rows, vals, length B, B) \<and>
     (\<forall>a b. entry (cols, rows, vals, length B, B) b a
            = cnj (entry (cols, rows, vals, length B, B) a b))"
proof -
  have L: "0 < L" "0 < nat L" using assms by simp_all
  let ?B = "basis (nat L) k"
  from BuildHNk_full[OF L(1), of k J g] obtain cols rows vals where
    r: "BuildHNk L k J g = Inr (cols, rows, vals, length ?B, ?B)"
      "\<forall>r c. entry (cols, rows, vals, length ?B, ?B) r c
           = (if r < length ?B then row_contrib (nat L) k J g ?B (?B ! r) r c else 0)"
    by (elim exE conjE)
  have e: "entry (cols, rows, vals, length ?B, ?B) r c
      = (if r < length ?B \<and> c < length ?B
         then row_contrib (nat L) k J g ?B (?B ! r) r c else 0)" for r c
    using r(2) row_contrib_out[of c ?B] by simp
  have h: "entry (cols, rows, vals, length ?B, ?B) b a
      = cnj (entry (cols, rows, vals, length ?B, ?B) a b)" for a b
  proof (cases "b < length ?B \<and> a < length ?B")
    case True
    then show ?thesis using entry_hermitian[OF L(2), of b k a J g] by (simp only: e) simp
  next
    case False
    then have "\<not> (a < length ?B \<and> b < length ?B)" by blast
    then show ?thesis using False by (simp only: e if_False complex_cnj_zero)
  qed
  show ?thesis
    apply (rule exI[of _ cols])
    apply (rule exI[of _ rows])
    apply (rule exI[of _ vals])
    apply (rule exI[of _ ?B])
    apply (intro conjI allI r(1) h)
    done
qed

theorem sector_matrix_hermitian_witness:
  "(1::int) \<le> 1
   \<and> BuildHNk 1 0 2 3 = Inr ([1, 0, 0, 1], [0, 0, 1, 1], [- 6, - 2, - 6, - 2], 2, [0, 1])
   \<and> entry ([1, 0, 0, 1], [0, 0, 1, 1], [- 6, - 2, - 6, - 2], 2, [0, 1]) 0 1
       = cnj (entry ([1, 0, 0, 1], [0, 0, 1, 1], [- 6, - 2, - 6, - 2], 2, [0, 1]) 1 0)"
proof -
  have h: "(1::int) \<le> 1" by simp
  have v: "BuildHNk 1 0 2 3 = Inr ([1, 0, 0, 1], [0, 0, 1, 1], [- 6, - 2, - 6, - 2], 2, [0, 1])"
    using BuildHNk_1_0_eval[of 2 3] by simp
  from sector_matrix_hermitian[OF h, of 0 2 3] obtain cols rows vals B where
    e: "BuildHNk 1 0 2 3 = Inr (cols, rows, vals, length B, B)"
    and s: "\<forall>a b. entry (cols, rows, vals, length B, B) b a
            = cnj (entry (cols, rows, vals, length B, B) a b)"
    by (elim exE conjE)
  have "(cols, rows, vals, length B, B)
      = ([1, 0, 0, 1], [0, 0, 1, 1], [- 6, - 2, - 6, - 2], 2, [0, 1])"
    using e v by (simp only: sum.inject)
  then have "entry ([1, 0, 0, 1], [0, 0, 1, 1], [- 6, - 2, - 6, - 2], 2, [0, 1]) 0 1
       = cnj (entry ([1, 0, 0, 1], [0, 0, 1, 1], [- 6, - 2, - 6, - 2], 2, [0, 1]) 1 0)"
    using s[rule_format, of 0 1] by (simp only:)
  then show ?thesis using h v by (intro conjI)
qed

text \<open>
  Claim C2. For a ring of length \<open>L \<ge> 1\<close>, \<open>BuildBasisNk\<close> returns a basis for every
  \<open>k\<close> from \<open>0\<close> to \<open>L - 1\<close>, and the lengths of these \<open>L\<close> bases add up to \<open>2 ^ L\<close>.
\<close>

theorem sector_sizes_sum:
  assumes "1 \<le> L"
  shows "\<exists>Bs. length Bs = nat L \<and> (\<forall>k<nat L. BuildBasisNk L (int k) = Inr (Bs ! k))
     \<and> sum_list (map length Bs) = 2 ^ nat L"
proof -
  have L: "0 < L" "0 < nat L" using assms by simp_all
  let ?Bs = "map (\<lambda>k. basis (nat L) (int k)) [0..<nat L]"
  have 1: "length ?Bs = nat L" by simp
  have 2: "\<forall>k<nat L. BuildBasisNk L (int k) = Inr (?Bs ! k)"
    by (simp add: BuildBasisNk_eq[OF L(1)])
  have "sum_list (map length ?Bs) = (\<Sum>k = 0..<nat L. length (basis (nat L) (int k)))"
    by (simp add: comp_def interv_sum_list_conv_sum_set_nat)
  then have 3: "sum_list (map length ?Bs) = 2 ^ nat L"
    by (simp only: sum_length_basis[OF L(2)])
  show ?thesis
    apply (rule exI[of _ ?Bs])
    apply (intro conjI 1 2 3)
    done
qed

theorem sector_sizes_sum_witness:
  "(1::int) \<le> 2 \<and> BuildBasisNk 2 0 = Inr [0, 1, 3] \<and> BuildBasisNk 2 1 = Inr [1]
   \<and> (\<exists>Bs. length Bs = nat 2 \<and> (\<forall>k<nat 2. BuildBasisNk 2 (int k) = Inr (Bs ! k))
     \<and> sum_list (map length Bs) = 2 ^ nat 2)"
proof -
  have h: "(1::int) \<le> 2" by simp
  from h BuildBasisNk_2_0 BuildBasisNk_2_1 sector_sizes_sum[OF h] show ?thesis
    by (intro conjI)
qed

text \<open>
  Claim C3. For a ring of length \<open>L \<ge> 1\<close>, \<open>BuildBasisNk\<close> returns a strictly ascending
  list that contains \<open>n\<close> exactly when \<open>n\<close> is a state below \<open>2 ^ L\<close>, no rotation of
  \<open>n\<close> by fewer than \<open>L\<close> positions is smaller than \<open>n\<close>, and \<open>k\<close> times the period
  of \<open>n\<close> (the least positive shift mapping \<open>n\<close> to itself) is a multiple of \<open>L\<close>.
\<close>

theorem BuildBasisNk_members_sorted:
  assumes "1 \<le> L"
  shows "\<exists>B. BuildBasisNk L k = Inr B \<and> sorted_wrt (<) B
     \<and> (\<forall>n. n \<in> set B \<longleftrightarrow>
           0 \<le> n \<and> n < 2 ^ nat L
           \<and> (\<forall>i. 0 \<le> i \<and> i < L \<longrightarrow> (\<exists>x. RotLBit n L i = Inr x \<and> n \<le> x))
           \<and> (\<exists>R. 1 \<le> R \<and> R \<le> L \<and> RotLBit n L R = Inr n
                 \<and> (\<forall>r. 1 \<le> r \<and> r < R \<longrightarrow> RotLBit n L r \<noteq> Inr n)
                 \<and> (k * R) mod L = 0))"
proof -
  have L: "0 < nat L" "0 < L" using assms(1) by simp_all
  have B: "BuildBasisNk L k = Inr (basis (nat L) k)" by (rule BuildBasisNk_eq[OF L(2)])
  have mem: "n \<in> set (basis (nat L) k) \<longleftrightarrow>
           0 \<le> n \<and> n < 2 ^ nat L
           \<and> (\<forall>i. 0 \<le> i \<and> i < L \<longrightarrow> (\<exists>x. RotLBit n L i = Inr x \<and> n \<le> x))
           \<and> (\<exists>R. 1 \<le> R \<and> R \<le> L \<and> RotLBit n L R = Inr n
                 \<and> (\<forall>r. 1 \<le> r \<and> r < R \<longrightarrow> RotLBit n L r \<noteq> Inr n)
                 \<and> (k * R) mod L = 0)" for n
  proof (cases "n \<in> states (nat L)")
    case False
    then have "n \<notin> set (basis (nat L) k)" by (simp add: set_basis)
    moreover have "\<not> (0 \<le> n \<and> n < 2 ^ nat L)" using False by (simp add: states_def)
    ultimately show ?thesis by blast
  next
    case n: True
    have "n \<in> set (basis (nat L) k) \<longleftrightarrow> in_sector (nat L) k n" using n by (simp add: set_basis)
    moreover have "0 \<le> n \<and> n < 2 ^ nat L" using n by (simp add: states_def)
    moreover have "int (nat L) = L" using L(2) by simp
    ultimately show ?thesis
      by (simp only: min_cond_iff[OF n L(2)] per_cond_iff[OF n L(2)] in_sector_def simp_thms)
  qed
  show ?thesis
    apply (rule exI[of _ "basis (nat L) k"])
    apply (intro conjI allI B sorted_basis mem)
    done
qed

theorem BuildBasisNk_members_sorted_witness:
  "(1::int) \<le> 2 \<and> BuildBasisNk 2 1 = Inr [1]
   \<and> (\<exists>B. BuildBasisNk 2 1 = Inr B \<and> sorted_wrt (<) B
     \<and> (\<forall>n. n \<in> set B \<longleftrightarrow>
           0 \<le> n \<and> n < 2 ^ nat 2
           \<and> (\<forall>i. 0 \<le> i \<and> i < 2 \<longrightarrow> (\<exists>x. RotLBit n 2 i = Inr x \<and> n \<le> x))
           \<and> (\<exists>R. 1 \<le> R \<and> R \<le> 2 \<and> RotLBit n 2 R = Inr n
                 \<and> (\<forall>r. 1 \<le> r \<and> r < R \<longrightarrow> RotLBit n 2 r \<noteq> Inr n)
                 \<and> (1 * R) mod 2 = 0)))"
proof -
  have h: "(1::int) \<le> 2" by simp
  from h BuildBasisNk_2_1 BuildBasisNk_members_sorted[OF h, of 1] show ?thesis
    by (intro conjI)
qed

text \<open>
  Claim C4. For a ring of length \<open>L \<ge> 1\<close> and a state \<open>n\<close> below \<open>2 ^ L\<close>, rotation by
  \<open>L\<close> returns \<open>n\<close>, so the search \<open>Tlist[1:].index(n)\<close> succeeds: it returns a
  period \<open>R\<close> between \<open>1\<close> and \<open>L\<close> that is the least positive shift mapping \<open>n\<close> to
  itself, and \<open>R\<close> divides \<open>L\<close>.
\<close>

theorem period_well_defined:
  assumes "1 \<le> L" "0 \<le> n" "n < 2 ^ nat L"
  shows "RotLBit n L L = Inr n
     \<and> (\<exists>T R. Tlist n L = Inr T \<and> period_in T n = Inr R \<and> 1 \<le> R \<and> int R \<le> L
           \<and> RotLBit n L (int R) = Inr n
           \<and> (\<forall>r. 1 \<le> r \<and> r < int R \<longrightarrow> RotLBit n L r \<noteq> Inr n)
           \<and> int R dvd L)"
proof -
  have n: "n \<in> states (nat L)" using assms(2,3) by (rule statesI)
  have L: "0 < nat L" "0 < L" using assms(1) by simp_all
  let ?T = "map (\<lambda>i. cyc (nat L) (int i) n) [0..<Suc (nat L)]"
  let ?R = "period (nat L) n"
  have 1: "Tlist n L = Inr ?T" by (rule Tlist_cyc[OF n L(2)])
  have 2: "period_in ?T n = Inr ?R" by (rule period_in_rotations[OF n L(1)])
  have 3: "1 \<le> ?R" using period_props(1)[OF n L(1)] by simp
  have 4: "\<forall>r. 1 \<le> r \<and> r < int ?R \<longrightarrow> RotLBit n L r \<noteq> Inr n"
    using RotLBit_below_period[OF n L(2)] by blast
  have "int ?R dvd int (nat L)" using period_dvd[OF n L(1)] by (simp only: int_dvd_int_iff)
  then have 5: "int ?R dvd L" using L(2) by simp
  have "\<exists>T R. Tlist n L = Inr T \<and> period_in T n = Inr R \<and> 1 \<le> R \<and> int R \<le> L
           \<and> RotLBit n L (int R) = Inr n
           \<and> (\<forall>r. 1 \<le> r \<and> r < int R \<longrightarrow> RotLBit n L r \<noteq> Inr n)
           \<and> int R dvd L"
    apply (rule exI[of _ ?T])
    apply (rule exI[of _ ?R])
    apply (intro conjI 1 2 3 4 5 RotLBit_period[OF n L(2)])
    done
  then show ?thesis using RotLBit_L[OF n L(2)] by (rule conjI[rotated])
qed

theorem period_well_defined_witness:
  "(1::int) \<le> 4 \<and> (0::int) \<le> 5 \<and> (5::int) < 2 ^ nat 4
   \<and> Tlist 5 4 = Inr [5, 10, 5, 10, 5] \<and> period_in [5, 10, 5, 10, 5] 5 = Inr 2
   \<and> RotLBit 5 4 4 = Inr 5
   \<and> (\<exists>T R. Tlist 5 4 = Inr T \<and> period_in T 5 = Inr R \<and> 1 \<le> R \<and> int R dvd 4)"
proof -
  have h: "(1::int) \<le> 4" "(0::int) \<le> 5" "(5::int) < 2 ^ nat 4" by simp_all
  from period_well_defined[OF h] have
    a: "RotLBit 5 4 4 = Inr 5"
    and b: "\<exists>T R. Tlist 5 4 = Inr T \<and> period_in T 5 = Inr R \<and> 1 \<le> R \<and> int R \<le> 4
           \<and> RotLBit 5 4 (int R) = Inr 5
           \<and> (\<forall>r. 1 \<le> r \<and> r < int R \<longrightarrow> RotLBit 5 4 r \<noteq> Inr 5)
           \<and> int R dvd 4"
    by (rule conjunct1, rule conjunct2)
  from b have c: "\<exists>T R. Tlist 5 4 = Inr T \<and> period_in T 5 = Inr R \<and> 1 \<le> R \<and> int R dvd 4"
    by (elim exE conjE) (intro exI conjI)
  from h Tlist_5_4 period_in_5_4 a c show ?thesis by (intro conjI)
qed

text \<open>
  Claim C5. For a state \<open>n\<close> of a ring of \<open>L \<ge> 1\<close> sites and couplings \<open>J\<close>, \<open>g\<close>,
  in whatever arithmetic the couplings live: when the amplitude \<open>- J * g\<close> evaluates to
  \<open>h\<close> and the sum over the bonds \<open>(i, (i + 1) mod L)\<close>, of \<open>- J\<close> for equal and \<open>+ J\<close>
  for different bits, evaluates to \<open>d\<close>, \<open>ActingH\<close> returns exactly \<open>L + 1\<close> pairs: at
  position \<open>i < L\<close> the state with bit \<open>i\<close> flipped together with \<open>h\<close>, and last the
  pair \<open>(n, d)\<close>. The only way not to return is an error of the arithmetic in one of
  the two, which \<open>ActingH\<close> passes on. With floats the sum is the rounded one: for
  \<open>J = 0.1\<close>, \<open>L = 3\<close> and \<open>n = 0\<close> it is \<open>- 0.30000000000000004\<close>.
\<close>

theorem ActingH_pairs:
  assumes "1 \<le> L"
  shows "(\<forall>h d. num_mul A (num_neg A J) g = Inr h \<and> bond_sum A n (nat L) J (nat L) = Inr d \<longrightarrow>
            (\<exists>out. ActingH_num A n L J g = Inr out \<and> length out = nat L + 1
               \<and> (\<forall>i<nat L. FilpBit n (int i) = Inr (fst (out ! i)) \<and> snd (out ! i) = h)
               \<and> out ! nat L = (n, d)))
       \<and> (\<forall>e. num_mul A (num_neg A J) g = Inl e
               \<or> (\<exists>h. num_mul A (num_neg A J) g = Inr h \<and> bond_sum A n (nat L) J (nat L) = Inl e)
             \<longrightarrow> ActingH_num A n L J g = Inl e)"
proof (intro conjI allI impI)
  fix h d
  assume a: "num_mul A (num_neg A J) g = Inr h \<and> bond_sum A n (nat L) J (nat L) = Inr d"
  let ?flips = "map (\<lambda>i. (n XOR push_bit i 1, h)) [0..<nat L]"
  have "ActingH_num A n L J g = Inr (?flips @ [(n, d)])"
    using a by (simp add: ActingH_num_eq[OF assms])
  moreover have "length (?flips @ [(n, d)]) = nat L + 1" by simp
  moreover have "FilpBit n (int i) = Inr (fst ((?flips @ [(n, d)]) ! i))
      \<and> snd ((?flips @ [(n, d)]) ! i) = h" if "i < nat L" for i
    using that by (simp add: FilpBit_def nth_append)
  moreover have "(?flips @ [(n, d)]) ! nat L = (n, d)"
    by (simp add: nth_append)
  ultimately show "\<exists>out. ActingH_num A n L J g = Inr out \<and> length out = nat L + 1
               \<and> (\<forall>i<nat L. FilpBit n (int i) = Inr (fst (out ! i)) \<and> snd (out ! i) = h)
               \<and> out ! nat L = (n, d)"
    by blast
next
  fix e
  assume "num_mul A (num_neg A J) g = Inl e
      \<or> (\<exists>h. num_mul A (num_neg A J) g = Inr h \<and> bond_sum A n (nat L) J (nat L) = Inl e)"
  then show "ActingH_num A n L J g = Inl e"
    by (auto simp add: ActingH_num_eq[OF assms])
qed

theorem ActingH_pairs_witness:
  "(1::int) \<le> 3
   \<and> (\<exists>out. ActingH_num (py_arith exp_at_zero) 0 3
                (PyFloat (3602879701896397 / 36028797018963968)) (PyInt 1) = Inr out
         \<and> length out = 4
         \<and> FilpBit 0 1 = Inr (fst (out ! 1))
         \<and> snd (out ! 1) = PyFloat (- (3602879701896397 / 36028797018963968))
         \<and> out ! 3 = (0, PyFloat (- (1351079888211149 / 4503599627370496))))"
proof -
  let ?A = "py_arith exp_at_zero"
  let ?J = "PyFloat (3602879701896397 / 36028797018963968)"
  have L: "(1::int) \<le> 3" by simp
  have m: "num_mul ?A (num_neg ?A ?J) (PyInt 1) = Inr (PyFloat (- (3602879701896397 / 36028797018963968)))"
    by code_simp
  have b: "bond_sum ?A 0 (nat 3) ?J (nat 3) = Inr (PyFloat (- (1351079888211149 / 4503599627370496)))"
    by code_simp
  from ActingH_pairs[OF L, of ?A ?J "PyInt 1" 0] m b obtain out where
    o: "ActingH_num ?A 0 3 ?J (PyInt 1) = Inr out" "length out = nat 3 + 1"
       "\<forall>i<nat 3. FilpBit 0 (int i) = Inr (fst (out ! i))
           \<and> snd (out ! i) = PyFloat (- (3602879701896397 / 36028797018963968))"
       "out ! nat 3 = (0, PyFloat (- (1351079888211149 / 4503599627370496)))"
    by blast
  have 1: "length out = 4" using o(2) by simp
  have 2: "FilpBit 0 1 = Inr (fst (out ! 1))"
    "snd (out ! 1) = PyFloat (- (3602879701896397 / 36028797018963968))"
    using o(3)[rule_format, of 1] by simp_all
  have 3: "out ! 3 = (0, PyFloat (- (1351079888211149 / 4503599627370496)))"
    using o(4) by simp
  show ?thesis using L o(1) 1 2 3 by blast
qed

text \<open>
  Claim C6. For a state \<open>n\<close> below \<open>2 ^ L\<close> and a shift \<open>0 \<le> s \<le> L\<close>, \<open>RotLBit\<close>
  returns the low \<open>L - s\<close> bits of \<open>n\<close> shifted left by \<open>s\<close> plus \<open>n\<close> shifted right
  by \<open>L - s\<close>, and \<open>RotRBit\<close> with the same shift maps the result back to \<open>n\<close>.
\<close>

theorem RotLBit_formula_inverse:
  assumes "0 \<le> n" "n < 2 ^ nat L" "0 \<le> s" "s \<le> L"
  shows "\<exists>p x. PickBit n 0 (L - s) = Inr p \<and> p = n mod 2 ^ nat (L - s)
     \<and> RotLBit n L s = Inr x \<and> x = push_bit (nat s) p + drop_bit (nat (L - s)) n
     \<and> RotRBit x L s = Inr n"
proof -
  have s: "nat s \<le> nat L" using assms(3,4) by simp
  have "PickBit n 0 (L - s) = Inr (n mod 2 ^ nat (L - s))"
    using assms(4) by (simp add: PickBit_0 take_bit_eq_mod)
  moreover have "RotLBit n L s = Inr (rotl (nat L) (nat s) n)"
    using assms(3,4) by (rule RotLBit_rotl)
  moreover have "rotl (nat L) (nat s) n
      = push_bit (nat s) (n mod 2 ^ nat (L - s)) + drop_bit (nat (L - s)) n"
    using assms(3,4) by (simp add: rotl_def take_bit_eq_mod nat_diff_distrib)
  moreover have "RotRBit (rotl (nat L) (nat s) n) L s = Inr n"
    using assms(3,4) rotl_rotl_inv[OF assms(1,2) s] by (simp add: RotRBit_rotl)
  ultimately show ?thesis by simp
qed

theorem RotLBit_formula_inverse_witness:
  "(0::int) \<le> 6 \<and> (6::int) < 2 ^ nat 4 \<and> (0::int) \<le> 3 \<and> (3::int) \<le> 4
   \<and> RotLBit 6 4 3 = Inr 3 \<and> RotRBit 3 4 3 = Inr 6"
proof -
  have h: "(0::int) \<le> 6" "(6::int) < 2 ^ nat 4" "(0::int) \<le> 3" "(3::int) \<le> 4" by simp_all
  have v: "push_bit (nat 3) ((6::int) mod 2 ^ nat (4 - 3)) + drop_bit (nat (4 - 3)) (6::int) = 3"
    by (simp add: push_bit_eq_mult drop_bit_eq_div)
  from RotLBit_formula_inverse[OF h] obtain p x where
    "p = 6 mod 2 ^ nat (4 - 3)" "RotLBit 6 4 3 = Inr x"
    "x = push_bit (nat 3) p + drop_bit (nat (4 - 3)) 6" "RotRBit x 4 3 = Inr 6"
    by blast
  then show ?thesis using h v by simp
qed

text \<open>
  Claim C7 says that a configuration with \<open>L \<le> 0\<close>, \<open>J < 0\<close> or \<open>g < 0\<close> fails
  fast with a configuration error before any basis is built. The program has no check
  of its configuration: with \<open>L = 1\<close>, \<open>k = 0\<close>, \<open>J = - 1\<close> and \<open>g = 1\<close> it builds
  the basis \<open>[0, 1]\<close> and returns the four triplets of the sector matrix.
\<close>

theorem negative_coupling_accepted:
  "BuildHNk 1 0 (- 1) 1 = Inr ([1, 0, 0, 1], [0, 0, 1, 1], [1, 1, 1, 1], 2, [0, 1])"
  using BuildHNk_1_0_eval[of "- 1" 1] by simp

text \<open>
  Claim C7, amended. A negative length raises a TypeError when the list of all states
  is built, and the length \<open>0\<close> raises a ValueError in the period search of the first
  state, whatever \<open>k\<close>, \<open>J\<close> and \<open>g\<close> are, so \<open>BuildHNk\<close> returns no sector basis
  for \<open>L \<le> 0\<close>; \<open>Task\<close> itself runs its loop over the sectors zero times for
  \<open>L \<le> 0\<close> and reaches the library calls with empty triplet lists and dimension \<open>0\<close>.
  The couplings are never checked: the sector basis is enumerated by \<open>BuildBasisNk\<close>,
  the first call of \<open>BuildHNk\<close>, from \<open>L\<close> and \<open>k\<close> alone, and it is returned for
  every \<open>L \<ge> 1\<close>.
\<close>

theorem no_configuration_check:
  "(L < 0 \<longrightarrow> BuildHNk L k J g = Inl TypeError)
   \<and> (L = 0 \<longrightarrow> BuildHNk L k J g = Inl ValueError)
   \<and> (L \<le> 0 \<longrightarrow> Task_triplets L = Inr \<lparr>count = 0, Hx = [], Hy = [], Hn = []\<rparr>)
   \<and> (1 \<le> L \<longrightarrow> (\<exists>B. BuildBasisNk L k = Inr B))"
proof (intro conjI impI)
  assume "L < 0" then show "BuildHNk L k J g = Inl TypeError" by (rule BuildHNk_neg)
next
  assume "L = 0" then show "BuildHNk L k J g = Inl ValueError" by (simp add: BuildHNk_zero)
next
  assume "L \<le> 0"
  then show "Task_triplets L = Inr \<lparr>count = 0, Hx = [], Hy = [], Hn = []\<rparr>"
    by (rule Task_triplets_nonpos)
next
  assume "1 \<le> L"
  then have L: "0 < L" by simp
  show "\<exists>B. BuildBasisNk L k = Inr B"
    by (rule exI[of _ "basis (nat L) k"]) (rule BuildBasisNk_eq[OF L])
qed

theorem no_configuration_check_witness:
  "BuildHNk (- 1) 0 (- 1) 1 = Inl TypeError
   \<and> BuildHNk 0 0 1 (- 1) = Inl ValueError
   \<and> Task_triplets 0 = Inr \<lparr>count = 0, Hx = [], Hy = [], Hn = []\<rparr>
   \<and> BuildBasisNk 1 0 = Inr [0, 1]
   \<and> (\<exists>B. BuildBasisNk 1 0 = Inr B)"
proof -
  have a: "BuildHNk (- 1) 0 (- 1) 1 = Inl TypeError"
    using no_configuration_check[of "- 1" 0 "- 1" 1] by simp
  have b: "BuildHNk 0 0 1 (- 1) = Inl ValueError"
    using no_configuration_check[of 0 0 1 "- 1"] by simp
  have t: "Task_triplets 0 = Inr \<lparr>count = 0, Hx = [], Hy = [], Hn = []\<rparr>"
    using no_configuration_check[of 0 0 1 1] by simp
  have "(1::int) \<le> 1" by simp
  then have c: "\<exists>B. BuildBasisNk 1 0 = Inr B"
    using no_configuration_check[of 1 0 "- 1" "- 2"] by blast
  show ?thesis using a b t BuildBasisNk_1_0 c by (intro conjI)
qed





text \<open>
  Claim C10. For a state \<open>n\<close> below \<open>2 ^ L\<close> and a shift \<open>0 \<le> s \<le> L\<close>, the rotated
  state is again a non-negative integer below \<open>2 ^ L\<close> with the same number of set
  bits; hence every entry of the rotation list of \<open>n\<close>, and its minimum (the
  representative), has the set-bit count of \<open>n\<close>.
\<close>

theorem RotLBit_closed_CountBit:
  assumes "0 \<le> n" "n < 2 ^ nat L" "0 \<le> s" "s \<le> L"
  shows "(\<exists>x. RotLBit n L s = Inr x \<and> 0 \<le> x \<and> x < 2 ^ nat L \<and> CountBit x = CountBit n)
     \<and> (\<exists>T m. Tlist n L = Inr T \<and> minE T = Inr m
            \<and> (\<forall>x\<in>set T. CountBit x = CountBit n) \<and> CountBit m = CountBit n)"
proof -
  have s: "nat s \<le> nat L" using assms(3,4) by simp
  have L: "0 \<le> L" using assms(3,4) by simp
  have "RotLBit n L s = Inr (rotl (nat L) (nat s) n)"
    using assms(3,4) by (rule RotLBit_rotl)
  then have first: "\<exists>x. RotLBit n L s = Inr x \<and> 0 \<le> x \<and> x < 2 ^ nat L \<and> CountBit x = CountBit n"
    using rotl_range[OF assms(1,2) s] CountBit_rotl[OF assms(1,2) s] by simp
  let ?T = "map (\<lambda>i. rotl (nat L) i n) [0..<Suc (nat L)]"
  have T: "Tlist n L = Inr ?T" using L by (rule Tlist_eq)
  have all: "\<forall>x\<in>set ?T. CountBit x = CountBit n"
    using CountBit_rotl[OF assms(1,2)] by auto
  have m: "minE ?T = Inr (Min (set ?T))" by (rule minE_Min) simp
  have "Min (set ?T) \<in> set ?T" by (rule Min_in) simp_all
  then have "CountBit (Min (set ?T)) = CountBit n" using all by blast
  then show ?thesis using first T m all by blast
qed

theorem RotLBit_closed_CountBit_witness:
  "(0::int) \<le> 6 \<and> (6::int) < 2 ^ nat 4 \<and> (0::int) \<le> 3 \<and> (3::int) \<le> 4
   \<and> (\<exists>x. RotLBit 6 4 3 = Inr x \<and> x < 2 ^ nat 4 \<and> CountBit x = CountBit 6)"
proof -
  have h: "(0::int) \<le> 6" "(6::int) < 2 ^ nat 4" "(0::int) \<le> 3" "(3::int) \<le> 4" by simp_all
  from RotLBit_closed_CountBit[OF h] have
    "\<exists>x. RotLBit 6 4 3 = Inr x \<and> 0 \<le> x \<and> x < 2 ^ nat 4 \<and> CountBit x = CountBit 6"
    by (rule conjunct1)
  then show ?thesis using h by blast
qed

end
